theory Spec2Isabelle
  imports Main "HOL-Library.Sublist"
begin

section \<open>Text as Python sees it\<close>

text \<open>
  The field extractors of \<open>backend/app.py\<close>: \<open>extract_aadhar\<close>, \<open>extract_dob\<close>,
  \<open>clean_extracted_name\<close> and \<open>extract_name\<close>, with the parts of Python's \<open>str\<close>
  and \<open>re\<close> that they use.

  A Python \<open>str\<close> is a sequence of Unicode code points. Code points are natural
  numbers here, so that the Devanagari block the source names (U+0900 to U+097F) and
  the Unicode-aware classes of the \<open>re\<close> module are representable. \<open>str\<close>
  turns an Isabelle string literal into such a sequence (its characters are ASCII).
\<close>

type_synonym ustr = "nat list"

definition str :: "string \<Rightarrow> ustr" where
  "str s = map of_char s"

datatype error = TypeError | AttributeError | IndexError

subsection \<open>Character classes\<close>

text \<open>
  \<open>\s\<close>, \<open>str.strip\<close> and \<open>str.split\<close> all use CPython's
  \<open>Py_UNICODE_ISSPACE\<close>: the code points below.
\<close>

definition is_space :: "nat \<Rightarrow> bool" where
  "is_space c \<longleftrightarrow>
     (9 \<le> c \<and> c \<le> 13) \<or> (28 \<le> c \<and> c \<le> 32) \<or> c = 133 \<or> c = 160 \<or> c = 5760
     \<or> (8192 \<le> c \<and> c \<le> 8202) \<or> c = 8232 \<or> c = 8233 \<or> c = 8239 \<or> c = 8287
     \<or> c = 12288"

definition in_table :: "(nat \<times> nat) list \<Rightarrow> nat \<Rightarrow> bool" where
  "in_table tab c = list_ex (\<lambda>(lo, hi). lo \<le> c \<and> c \<le> hi) tab"

text \<open>
  \<open>\d\<close> on a \<open>str\<close> pattern is every decimal digit of Unicode (category Nd), not
  only 0 to 9. The table lists the ranges above ASCII (Unicode 14.0.0, the data of
  CPython 3.11).
\<close>

definition decimal_table :: "(nat \<times> nat) list" where
  "decimal_table = [
  (1632, 1641), (1776, 1785), (1984, 1993), (2406, 2415), (2534, 2543), (2662, 2671),
   (2790, 2799), (2918, 2927), (3046, 3055), (3174, 3183), (3302, 3311), (3430, 3439),
   (3558, 3567), (3664, 3673), (3792, 3801), (3872, 3881), (4160, 4169), (4240, 4249),
   (6112, 6121), (6160, 6169), (6470, 6479), (6608, 6617), (6784, 6793), (6800, 6809),
   (6992, 7001), (7088, 7097), (7232, 7241), (7248, 7257), (42528, 42537), (43216, 43225),
   (43264, 43273), (43472, 43481), (43504, 43513), (43600, 43609), (44016, 44025),
   (65296, 65305), (66720, 66729), (68912, 68921), (69734, 69743), (69872, 69881),
   (69942, 69951), (70096, 70105), (70384, 70393), (70736, 70745), (70864, 70873),
   (71248, 71257), (71360, 71369), (71472, 71481), (71904, 71913), (72016, 72025),
   (72784, 72793), (73040, 73049), (73120, 73129), (92768, 92777), (92864, 92873),
   (93008, 93017), (120782, 120831), (123200, 123209), (123632, 123641), (125264, 125273),
   (130032, 130041)]"

definition is_decimal :: "nat \<Rightarrow> bool" where
  "is_decimal c \<longleftrightarrow> (if c < 128 then 48 \<le> c \<and> c \<le> 57 else in_table decimal_table c)"

text \<open>
  \<open>\w\<close> is every code point for which \<open>str.isalnum\<close> holds, and the underscore.
  The table lists the ranges above ASCII (same Unicode data).
\<close>

definition alnum_table :: "(nat \<times> nat) list" where
  "alnum_table = [
  (170, 170), (178, 179), (181, 181), (185, 186), (188, 190), (192, 214), (216, 246),
   (248, 705), (710, 721), (736, 740), (748, 748), (750, 750), (880, 884), (886, 887),
   (890, 893), (895, 895), (902, 902), (904, 906), (908, 908), (910, 929), (931, 1013),
   (1015, 1153), (1162, 1327), (1329, 1366), (1369, 1369), (1376, 1416), (1488, 1514),
   (1519, 1522), (1568, 1610), (1632, 1641), (1646, 1647), (1649, 1747), (1749, 1749),
   (1765, 1766), (1774, 1788), (1791, 1791), (1808, 1808), (1810, 1839), (1869, 1957),
   (1969, 1969), (1984, 2026), (2036, 2037), (2042, 2042), (2048, 2069), (2074, 2074),
   (2084, 2084), (2088, 2088), (2112, 2136), (2144, 2154), (2160, 2183), (2185, 2190),
   (2208, 2249), (2308, 2361), (2365, 2365), (2384, 2384), (2392, 2401), (2406, 2415),
   (2417, 2432), (2437, 2444), (2447, 2448), (2451, 2472), (2474, 2480), (2482, 2482),
   (2486, 2489), (2493, 2493), (2510, 2510), (2524, 2525), (2527, 2529), (2534, 2545),
   (2548, 2553), (2556, 2556), (2565, 2570), (2575, 2576), (2579, 2600), (2602, 2608),
   (2610, 2611), (2613, 2614), (2616, 2617), (2649, 2652), (2654, 2654), (2662, 2671),
   (2674, 2676), (2693, 2701), (2703, 2705), (2707, 2728), (2730, 2736), (2738, 2739),
   (2741, 2745), (2749, 2749), (2768, 2768), (2784, 2785), (2790, 2799), (2809, 2809),
   (2821, 2828), (2831, 2832), (2835, 2856), (2858, 2864), (2866, 2867), (2869, 2873),
   (2877, 2877), (2908, 2909), (2911, 2913), (2918, 2927), (2929, 2935), (2947, 2947),
   (2949, 2954), (2958, 2960), (2962, 2965), (2969, 2970), (2972, 2972), (2974, 2975),
   (2979, 2980), (2984, 2986), (2990, 3001), (3024, 3024), (3046, 3058), (3077, 3084),
   (3086, 3088), (3090, 3112), (3114, 3129), (3133, 3133), (3160, 3162), (3165, 3165),
   (3168, 3169), (3174, 3183), (3192, 3198), (3200, 3200), (3205, 3212), (3214, 3216),
   (3218, 3240), (3242, 3251), (3253, 3257), (3261, 3261), (3293, 3294), (3296, 3297),
   (3302, 3311), (3313, 3314), (3332, 3340), (3342, 3344), (3346, 3386), (3389, 3389),
   (3406, 3406), (3412, 3414), (3416, 3425), (3430, 3448), (3450, 3455), (3461, 3478),
   (3482, 3505), (3507, 3515), (3517, 3517), (3520, 3526), (3558, 3567), (3585, 3632),
   (3634, 3635), (3648, 3654), (3664, 3673), (3713, 3714), (3716, 3716), (3718, 3722),
   (3724, 3747), (3749, 3749), (3751, 3760), (3762, 3763), (3773, 3773), (3776, 3780),
   (3782, 3782), (3792, 3801), (3804, 3807), (3840, 3840), (3872, 3891), (3904, 3911),
   (3913, 3948), (3976, 3980), (4096, 4138), (4159, 4169), (4176, 4181), (4186, 4189),
   (4193, 4193), (4197, 4198), (4206, 4208), (4213, 4225), (4238, 4238), (4240, 4249),
   (4256, 4293), (4295, 4295), (4301, 4301), (4304, 4346), (4348, 4680), (4682, 4685),
   (4688, 4694), (4696, 4696), (4698, 4701), (4704, 4744), (4746, 4749), (4752, 4784),
   (4786, 4789), (4792, 4798), (4800, 4800), (4802, 4805), (4808, 4822), (4824, 4880),
   (4882, 4885), (4888, 4954), (4969, 4988), (4992, 5007), (5024, 5109), (5112, 5117),
   (5121, 5740), (5743, 5759), (5761, 5786), (5792, 5866), (5870, 5880), (5888, 5905),
   (5919, 5937), (5952, 5969), (5984, 5996), (5998, 6000), (6016, 6067), (6103, 6103),
   (6108, 6108), (6112, 6121), (6128, 6137), (6160, 6169), (6176, 6264), (6272, 6276),
   (6279, 6312), (6314, 6314), (6320, 6389), (6400, 6430), (6470, 6509), (6512, 6516),
   (6528, 6571), (6576, 6601), (6608, 6618), (6656, 6678), (6688, 6740), (6784, 6793),
   (6800, 6809), (6823, 6823), (6917, 6963), (6981, 6988), (6992, 7001), (7043, 7072),
   (7086, 7141), (7168, 7203), (7232, 7241), (7245, 7293), (7296, 7304), (7312, 7354),
   (7357, 7359), (7401, 7404), (7406, 7411), (7413, 7414), (7418, 7418), (7424, 7615),
   (7680, 7957), (7960, 7965), (7968, 8005), (8008, 8013), (8016, 8023), (8025, 8025),
   (8027, 8027), (8029, 8029), (8031, 8061), (8064, 8116), (8118, 8124), (8126, 8126),
   (8130, 8132), (8134, 8140), (8144, 8147), (8150, 8155), (8160, 8172), (8178, 8180),
   (8182, 8188), (8304, 8305), (8308, 8313), (8319, 8329), (8336, 8348), (8450, 8450),
   (8455, 8455), (8458, 8467), (8469, 8469), (8473, 8477), (8484, 8484), (8486, 8486),
   (8488, 8488), (8490, 8493), (8495, 8505), (8508, 8511), (8517, 8521), (8526, 8526),
   (8528, 8585), (9312, 9371), (9450, 9471), (10102, 10131), (11264, 11492), (11499, 11502),
   (11506, 11507), (11517, 11517), (11520, 11557), (11559, 11559), (11565, 11565),
   (11568, 11623), (11631, 11631), (11648, 11670), (11680, 11686), (11688, 11694),
   (11696, 11702), (11704, 11710), (11712, 11718), (11720, 11726), (11728, 11734),
   (11736, 11742), (11823, 11823), (12293, 12295), (12321, 12329), (12337, 12341),
   (12344, 12348), (12353, 12438), (12445, 12447), (12449, 12538), (12540, 12543),
   (12549, 12591), (12593, 12686), (12690, 12693), (12704, 12735), (12784, 12799),
   (12832, 12841), (12872, 12879), (12881, 12895), (12928, 12937), (12977, 12991),
   (13312, 19903), (19968, 42124), (42192, 42237), (42240, 42508), (42512, 42539),
   (42560, 42606), (42623, 42653), (42656, 42735), (42775, 42783), (42786, 42888),
   (42891, 42954), (42960, 42961), (42963, 42963), (42965, 42969), (42994, 43009),
   (43011, 43013), (43015, 43018), (43020, 43042), (43056, 43061), (43072, 43123),
   (43138, 43187), (43216, 43225), (43250, 43255), (43259, 43259), (43261, 43262),
   (43264, 43301), (43312, 43334), (43360, 43388), (43396, 43442), (43471, 43481),
   (43488, 43492), (43494, 43518), (43520, 43560), (43584, 43586), (43588, 43595),
   (43600, 43609), (43616, 43638), (43642, 43642), (43646, 43695), (43697, 43697),
   (43701, 43702), (43705, 43709), (43712, 43712), (43714, 43714), (43739, 43741),
   (43744, 43754), (43762, 43764), (43777, 43782), (43785, 43790), (43793, 43798),
   (43808, 43814), (43816, 43822), (43824, 43866), (43868, 43881), (43888, 44002),
   (44016, 44025), (44032, 55203), (55216, 55238), (55243, 55291), (63744, 64109),
   (64112, 64217), (64256, 64262), (64275, 64279), (64285, 64285), (64287, 64296),
   (64298, 64310), (64312, 64316), (64318, 64318), (64320, 64321), (64323, 64324),
   (64326, 64433), (64467, 64829), (64848, 64911), (64914, 64967), (65008, 65019),
   (65136, 65140), (65142, 65276), (65296, 65305), (65313, 65338), (65345, 65370),
   (65382, 65470), (65474, 65479), (65482, 65487), (65490, 65495), (65498, 65500),
   (65536, 65547), (65549, 65574), (65576, 65594), (65596, 65597), (65599, 65613),
   (65616, 65629), (65664, 65786), (65799, 65843), (65856, 65912), (65930, 65931),
   (66176, 66204), (66208, 66256), (66273, 66299), (66304, 66339), (66349, 66378),
   (66384, 66421), (66432, 66461), (66464, 66499), (66504, 66511), (66513, 66517),
   (66560, 66717), (66720, 66729), (66736, 66771), (66776, 66811), (66816, 66855),
   (66864, 66915), (66928, 66938), (66940, 66954), (66956, 66962), (66964, 66965),
   (66967, 66977), (66979, 66993), (66995, 67001), (67003, 67004), (67072, 67382),
   (67392, 67413), (67424, 67431), (67456, 67461), (67463, 67504), (67506, 67514),
   (67584, 67589), (67592, 67592), (67594, 67637), (67639, 67640), (67644, 67644),
   (67647, 67669), (67672, 67702), (67705, 67742), (67751, 67759), (67808, 67826),
   (67828, 67829), (67835, 67867), (67872, 67897), (67968, 68023), (68028, 68047),
   (68050, 68096), (68112, 68115), (68117, 68119), (68121, 68149), (68160, 68168),
   (68192, 68222), (68224, 68255), (68288, 68295), (68297, 68324), (68331, 68335),
   (68352, 68405), (68416, 68437), (68440, 68466), (68472, 68497), (68521, 68527),
   (68608, 68680), (68736, 68786), (68800, 68850), (68858, 68899), (68912, 68921),
   (69216, 69246), (69248, 69289), (69296, 69297), (69376, 69415), (69424, 69445),
   (69457, 69460), (69488, 69505), (69552, 69579), (69600, 69622), (69635, 69687),
   (69714, 69743), (69745, 69746), (69749, 69749), (69763, 69807), (69840, 69864),
   (69872, 69881), (69891, 69926), (69942, 69951), (69956, 69956), (69959, 69959),
   (69968, 70002), (70006, 70006), (70019, 70066), (70081, 70084), (70096, 70106),
   (70108, 70108), (70113, 70132), (70144, 70161), (70163, 70187), (70272, 70278),
   (70280, 70280), (70282, 70285), (70287, 70301), (70303, 70312), (70320, 70366),
   (70384, 70393), (70405, 70412), (70415, 70416), (70419, 70440), (70442, 70448),
   (70450, 70451), (70453, 70457), (70461, 70461), (70480, 70480), (70493, 70497),
   (70656, 70708), (70727, 70730), (70736, 70745), (70751, 70753), (70784, 70831),
   (70852, 70853), (70855, 70855), (70864, 70873), (71040, 71086), (71128, 71131),
   (71168, 71215), (71236, 71236), (71248, 71257), (71296, 71338), (71352, 71352),
   (71360, 71369), (71424, 71450), (71472, 71483), (71488, 71494), (71680, 71723),
   (71840, 71922), (71935, 71942), (71945, 71945), (71948, 71955), (71957, 71958),
   (71960, 71983), (71999, 71999), (72001, 72001), (72016, 72025), (72096, 72103),
   (72106, 72144), (72161, 72161), (72163, 72163), (72192, 72192), (72203, 72242),
   (72250, 72250), (72272, 72272), (72284, 72329), (72349, 72349), (72368, 72440),
   (72704, 72712), (72714, 72750), (72768, 72768), (72784, 72812), (72818, 72847),
   (72960, 72966), (72968, 72969), (72971, 73008), (73030, 73030), (73040, 73049),
   (73056, 73061), (73063, 73064), (73066, 73097), (73112, 73112), (73120, 73129),
   (73440, 73458), (73648, 73648), (73664, 73684), (73728, 74649), (74752, 74862),
   (74880, 75075), (77712, 77808), (77824, 78894), (82944, 83526), (92160, 92728),
   (92736, 92766), (92768, 92777), (92784, 92862), (92864, 92873), (92880, 92909),
   (92928, 92975), (92992, 92995), (93008, 93017), (93019, 93025), (93027, 93047),
   (93053, 93071), (93760, 93846), (93952, 94026), (94032, 94032), (94099, 94111),
   (94176, 94177), (94179, 94179), (94208, 100343), (100352, 101589), (101632, 101640),
   (110576, 110579), (110581, 110587), (110589, 110590), (110592, 110882), (110928, 110930),
   (110948, 110951), (110960, 111355), (113664, 113770), (113776, 113788), (113792, 113800),
   (113808, 113817), (119520, 119539), (119648, 119672), (119808, 119892), (119894, 119964),
   (119966, 119967), (119970, 119970), (119973, 119974), (119977, 119980), (119982, 119993),
   (119995, 119995), (119997, 120003), (120005, 120069), (120071, 120074), (120077, 120084),
   (120086, 120092), (120094, 120121), (120123, 120126), (120128, 120132), (120134, 120134),
   (120138, 120144), (120146, 120485), (120488, 120512), (120514, 120538), (120540, 120570),
   (120572, 120596), (120598, 120628), (120630, 120654), (120656, 120686), (120688, 120712),
   (120714, 120744), (120746, 120770), (120772, 120779), (120782, 120831), (122624, 122654),
   (123136, 123180), (123191, 123197), (123200, 123209), (123214, 123214), (123536, 123565),
   (123584, 123627), (123632, 123641), (124896, 124902), (124904, 124907), (124909, 124910),
   (124912, 124926), (124928, 125124), (125127, 125135), (125184, 125251), (125259, 125259),
   (125264, 125273), (126065, 126123), (126125, 126127), (126129, 126132), (126209, 126253),
   (126255, 126269), (126464, 126467), (126469, 126495), (126497, 126498), (126500, 126500),
   (126503, 126503), (126505, 126514), (126516, 126519), (126521, 126521), (126523, 126523),
   (126530, 126530), (126535, 126535), (126537, 126537), (126539, 126539), (126541, 126543),
   (126545, 126546), (126548, 126548), (126551, 126551), (126553, 126553), (126555, 126555),
   (126557, 126557), (126559, 126559), (126561, 126562), (126564, 126564), (126567, 126570),
   (126572, 126578), (126580, 126583), (126585, 126588), (126590, 126590), (126592, 126601),
   (126603, 126619), (126625, 126627), (126629, 126633), (126635, 126651), (127232, 127244),
   (130032, 130041), (131072, 173791), (173824, 177976), (177984, 178205), (178208, 183969),
   (183984, 191456), (194560, 195101), (196608, 201546)]"

definition is_word :: "nat \<Rightarrow> bool" where
  "is_word c \<longleftrightarrow>
     (if c < 128 then (48 \<le> c \<and> c \<le> 57) \<or> (65 \<le> c \<and> c \<le> 90) \<or> c = 95 \<or> (97 \<le> c \<and> c \<le> 122)
      else in_table alnum_table c)"

text \<open>The classes the source spells out: \<open>[A-Za-z]\<close>, \<open>[\u0900-\u097F]\<close> and their unions.\<close>

definition is_upper :: "nat \<Rightarrow> bool" where
  "is_upper c \<longleftrightarrow> 65 \<le> c \<and> c \<le> 90"

definition is_lower :: "nat \<Rightarrow> bool" where
  "is_lower c \<longleftrightarrow> 97 \<le> c \<and> c \<le> 122"

definition is_latin :: "nat \<Rightarrow> bool" where
  "is_latin c \<longleftrightarrow> is_upper c \<or> is_lower c"

definition is_deva :: "nat \<Rightarrow> bool" where
  "is_deva c \<longleftrightarrow> 2304 \<le> c \<and> c \<le> 2431"

definition is_letter :: "nat \<Rightarrow> bool" where
  "is_letter c \<longleftrightarrow> is_latin c \<or> is_deva c"

text \<open>\<open>[A-Za-z\u0900-\u097F'\-\.]\<close>: a letter, an apostrophe, a hyphen or a period.\<close>

definition is_name_char :: "nat \<Rightarrow> bool" where
  "is_name_char c \<longleftrightarrow> is_letter c \<or> c = 39 \<or> c = 45 \<or> c = 46"

text \<open>\<open>[A-Za-z\u0900-\u097F\s\.\'\-]\<close>: what the cleaner keeps.\<close>

definition is_kept :: "nat \<Rightarrow> bool" where
  "is_kept c \<longleftrightarrow> is_letter c \<or> is_space c \<or> c = 46 \<or> c = 39 \<or> c = 45"

definition is_date_sep :: "nat \<Rightarrow> bool" where
  "is_date_sep c \<longleftrightarrow> c = 47 \<or> c = 45"

subsection \<open>String methods\<close>

definition strip :: "ustr \<Rightarrow> ustr" where
  "strip s = rev (dropWhile is_space (rev (dropWhile is_space s)))"

text \<open>\<open>s.split()\<close>: the maximal runs of non-whitespace; \<open>cur\<close> is the run being read.\<close>

fun split_acc :: "ustr \<Rightarrow> ustr \<Rightarrow> ustr list" where
  "split_acc cur [] = (if cur = [] then [] else [cur])"
| "split_acc cur (c # cs) =
     (if is_space c then (if cur = [] then split_acc [] cs else cur # split_acc [] cs)
      else split_acc (cur @ [c]) cs)"

definition split :: "ustr \<Rightarrow> ustr list" where
  "split s = split_acc [] s"

text \<open>
  \<open>s.splitlines()\<close>: a line ends at LF, CR, CR LF, VT, FF, FS, GS, RS, NEL, LS or PS;
  the terminators are dropped and no empty line follows the last terminator.
\<close>

definition is_linebreak :: "nat \<Rightarrow> bool" where
  "is_linebreak c \<longleftrightarrow> (10 \<le> c \<and> c \<le> 13) \<or> (28 \<le> c \<and> c \<le> 30) \<or> c = 133 \<or> c = 8232 \<or> c = 8233"

fun splitlines_acc :: "ustr \<Rightarrow> ustr \<Rightarrow> ustr list" where
  "splitlines_acc cur [] = (if cur = [] then [] else [cur])"
| "splitlines_acc cur (c # cs) =
     (if is_linebreak c then
        (case cs of
           d # ds \<Rightarrow> if c = 13 \<and> d = 10 then cur # splitlines_acc [] ds
                     else cur # splitlines_acc [] cs
         | [] \<Rightarrow> cur # splitlines_acc [] cs)
      else splitlines_acc (cur @ [c]) cs)"

definition splitlines :: "ustr \<Rightarrow> ustr list" where
  "splitlines s = splitlines_acc [] s"

text \<open>\<open>" ".join(parts)\<close>.\<close>

fun join_sp :: "ustr list \<Rightarrow> ustr" where
  "join_sp [] = []"
| "join_sp [p] = p"
| "join_sp (p # q # ps) = p @ [32] @ join_sp (q # ps)"

text \<open>\<open>s[a:b]\<close> for \<open>0 \<le> a \<le> b\<close>.\<close>

definition slice :: "ustr \<Rightarrow> nat \<Rightarrow> nat \<Rightarrow> ustr" where
  "slice s a b = take (b - a) (drop a s)"

text \<open>\<open>xs[i]\<close>: below zero the index is taken from the end; outside the list it raises.\<close>

definition py_get :: "'a list \<Rightarrow> int \<Rightarrow> error + 'a" where
  "py_get xs i =
     (if 0 \<le> i \<and> i < int (length xs) then Inr (xs ! nat i)
      else if i < 0 \<and> - int (length xs) \<le> i then Inr (xs ! nat (int (length xs) + i))
      else Inl IndexError)"

section \<open>Regular expressions with Python's backtracking order\<close>

text \<open>
  The patterns of the source use single characters and character classes, greedy
  repetition of a class, sequence, alternation and the assertions \<open>\b\<close>, \<open>^\<close> and
  \<open>$\<close>. \<open>Rep p m n\<close> is the greedy \<open>p{m,n}\<close> (\<open>None\<close>: no upper bound).
\<close>

datatype rx =
    Chr "nat \<Rightarrow> bool"
  | Eps
  | Seq rx rx
  | Alt rx rx
  | Rep "nat \<Rightarrow> bool" nat "nat option"
  | Wordb
  | Bos
  | Eos

text \<open>The longest run of \<open>p\<close> at the head of a string, cut at the upper bound.\<close>

definition run :: "(nat \<Rightarrow> bool) \<Rightarrow> nat option \<Rightarrow> ustr \<Rightarrow> nat" where
  "run p n s = (let k = length (takeWhile p s) in case n of None \<Rightarrow> k | Some b \<Rightarrow> min b k)"

text \<open>\<open>\b\<close>: exactly one of the characters before and after the position is a word character.\<close>

definition word_boundary :: "ustr \<Rightarrow> nat \<Rightarrow> bool" where
  "word_boundary s i \<longleftrightarrow>
     (0 < i \<and> i \<le> length s \<and> is_word (s ! (i - 1))) \<noteq> (i < length s \<and> is_word (s ! i))"

text \<open>
  \<open>ends r s i\<close> lists the positions where a match of \<open>r\<close> that starts at \<open>i\<close> can
  end, in the order in which the backtracking matcher tries them: a greedy repetition
  offers its longest run first, an alternation its left branch first. The first entry
  is the match \<open>re\<close> reports; the later ones are what it falls back to when the rest of
  the pattern fails.
\<close>

primrec ends :: "rx \<Rightarrow> ustr \<Rightarrow> nat \<Rightarrow> nat list" where
  "ends (Chr p) s i = (if i < length s \<and> p (s ! i) then [Suc i] else [])"
| "ends Eps s i = [i]"
| "ends (Seq a b) s i = concat (map (ends b s) (ends a s i))"
| "ends (Alt a b) s i = ends a s i @ ends b s i"
| "ends (Rep p m n) s i =
     (let k = run p n (drop i s) in if k < m then [] else rev (map (\<lambda>j. i + j) [m..<Suc k]))"
| "ends Wordb s i = (if word_boundary s i then [i] else [])"
| "ends Bos s i = (if i = 0 then [i] else [])"
| "ends Eos s i = (if i = length s \<or> (Suc i = length s \<and> s ! i = 10) then [i] else [])"

definition seqs :: "rx list \<Rightarrow> rx" where
  "seqs rs = foldr Seq rs Eps"

definition alts :: "rx list \<Rightarrow> rx" where
  "alts rs = foldr Alt (butlast rs) (last rs)"

text \<open>
  A literal under \<open>re.IGNORECASE\<close>: a pattern letter matches the text characters
  whose lower case is that letter's; for \<open>i\<close> the \<open>re\<close> module adds dotless i
  (U+0131), and capital I with dot (U+0130) lowers to \<open>i\<close>. No other code point
  lowers to an ASCII letter that these patterns use.
\<close>

definition lower_ascii :: "nat \<Rightarrow> nat" where
  "lower_ascii c = (if is_upper c then c + 32 else c)"

definition upper_ascii :: "nat \<Rightarrow> nat" where
  "upper_ascii c = (if is_lower c then c - 32 else c)"

definition ci_eq :: "nat \<Rightarrow> nat \<Rightarrow> bool" where
  "ci_eq p c \<longleftrightarrow>
     lower_ascii c = lower_ascii p \<or> (lower_ascii p = 105 \<and> (c = 304 \<or> c = 305))"

definition lit_ic :: "ustr \<Rightarrow> rx" where
  "lit_ic w = seqs (map (\<lambda>p. Chr (ci_eq p)) w)"

text \<open>\<open>re.search\<close> from position \<open>k\<close>: the leftmost start with a match, and its end.\<close>

definition search_from :: "rx \<Rightarrow> ustr \<Rightarrow> nat \<Rightarrow> (nat \<times> nat) option" where
  "search_from r s k =
     (case find (\<lambda>i. ends r s i \<noteq> []) [k..<Suc (length s)] of
        None \<Rightarrow> None
      | Some i \<Rightarrow> Some (i, hd (ends r s i)))"

definition re_search :: "rx \<Rightarrow> ustr \<Rightarrow> (nat \<times> nat) option" where
  "re_search r s = search_from r s 0"

text \<open>\<open>re.match\<close>: a match at position 0; the result is its end.\<close>

definition re_match :: "rx \<Rightarrow> ustr \<Rightarrow> nat option" where
  "re_match r s = (case ends r s 0 of [] \<Rightarrow> None | e # _ \<Rightarrow> Some e)"

text \<open>\<open>re.fullmatch\<close>: some way of matching from 0 ends at the end of the string.\<close>

definition re_fullmatch :: "rx \<Rightarrow> ustr \<Rightarrow> bool" where
  "re_fullmatch r s \<longleftrightarrow> length s \<in> set (ends r s 0)"

text \<open>
  \<open>re.sub(r, repl, s)\<close> from position \<open>k\<close>: copy up to the next match, put \<open>repl\<close>,
  go on behind the match. After an empty match one character is copied. (No pattern
  of this program matches the empty string.)
\<close>

function sub_from :: "rx \<Rightarrow> ustr \<Rightarrow> ustr \<Rightarrow> nat \<Rightarrow> ustr" where
  "sub_from r repl s k =
     (case search_from r s k of
        None \<Rightarrow> drop k s
      | Some (i, e) \<Rightarrow>
          if k \<le> i \<and> i < e \<and> e \<le> length s
          then slice s k i @ repl @ sub_from r repl s e
          else if k \<le> i \<and> i < length s
          then slice s k i @ repl @ [s ! i] @ sub_from r repl s (Suc i)
          else drop k s @ repl)"
  by pat_completeness auto
termination
  by (relation "measure (\<lambda>(r, repl, s, k). length s - k)") auto

definition re_sub :: "rx \<Rightarrow> ustr \<Rightarrow> ustr \<Rightarrow> ustr" where
  "re_sub r repl s = sub_from r repl s 0"

section \<open>Field extractors\<close>

text \<open>\<open>(\d{4}\s?\d{4}\s?\d{4})\<close>\<close>

definition re_aadhar :: rx where
  "re_aadhar = seqs [Rep is_decimal 4 (Some 4), Rep is_space 0 (Some 1),
                     Rep is_decimal 4 (Some 4), Rep is_space 0 (Some 1),
                     Rep is_decimal 4 (Some 4)]"

text \<open>\<open>\s+\<close>\<close>

definition re_spaces :: rx where
  "re_spaces = Rep is_space 1 None"

text \<open>
  \<open>extract_aadhar\<close>: the argument is \<open>None\<close> or a string; \<open>re.search\<close> raises
  \<open>TypeError\<close> on \<open>None\<close>.
\<close>

definition extract_aadhar :: "ustr option \<Rightarrow> error + ustr option" where
  "extract_aadhar text =
     (case text of
        None \<Rightarrow> Inl TypeError
      | Some t \<Rightarrow>
          (case re_search re_aadhar t of
             None \<Rightarrow> Inr None
           | Some (i, e) \<Rightarrow>
               let digits = re_sub re_spaces [] (slice t i e)
               in if length digits \<noteq> 12 then Inr None
                  else Inr (Some (slice digits 0 4 @ [32] @ slice digits 4 8 @ [32]
                                  @ slice digits 8 12))))"

text \<open>\<open>(\d{2}[\/\-]\d{2}[\/\-]\d{4})\<close>\<close>

definition re_date :: rx where
  "re_date = seqs [Rep is_decimal 2 (Some 2), Chr is_date_sep, Rep is_decimal 2 (Some 2),
                   Chr is_date_sep, Rep is_decimal 4 (Some 4)]"

definition extract_dob :: "ustr option \<Rightarrow> error + ustr option" where
  "extract_dob text =
     (case text of
        None \<Rightarrow> Inl TypeError
      | Some t \<Rightarrow>
          (case re_search re_date t of
             None \<Rightarrow> Inr None
           | Some (i, e) \<Rightarrow> Inr (Some (slice t i e))))"


section \<open>Name cleaner\<close>

text \<open>
  \<open>tok.title()\<close> and \<open>tok.upper()\<close>. They are applied to tokens that hold only
  Latin letters, code points of U+0900 to U+097F, periods, apostrophes and hyphens
  (everything else was replaced by a space before); of these only the Latin letters
  have case. In \<open>title\<close> a character is lowered when the one before it is cased and
  raised otherwise.
\<close>

fun title_acc :: "bool \<Rightarrow> ustr \<Rightarrow> ustr" where
  "title_acc prev [] = []"
| "title_acc prev (c # cs) =
     (if prev then lower_ascii c else upper_ascii c) # title_acc (is_latin c) cs"

definition title :: "ustr \<Rightarrow> ustr" where
  "title s = title_acc False s"

definition upper :: "ustr \<Rightarrow> ustr" where
  "upper s = map upper_ascii s"

text \<open>\<open>^[^A-Za-z\u0900-\u097F]+\<close>\<close>

definition re_lead_nonletter :: rx where
  "re_lead_nonletter = seqs [Bos, Rep (\<lambda>c. \<not> is_letter c) 1 None]"

text \<open>
  \<open>\b(Name|NAME|<U+0928 U+093E U+092E>|<U+0928 U+093E U+0935>|DOB|Date of Birth|DOB:)\b[:\s\-]*\<close>
  with \<open>re.IGNORECASE\<close>
\<close>

definition is_label_tail :: "nat \<Rightarrow> bool" where
  "is_label_tail c \<longleftrightarrow> c = 58 \<or> is_space c \<or> c = 45"

definition re_label :: rx where
  "re_label = seqs [Wordb,
      alts [lit_ic (str ''Name''), lit_ic (str ''NAME''), lit_ic [2344, 2366, 2350],
            lit_ic [2344, 2366, 2357], lit_ic (str ''DOB''), lit_ic (str ''Date of Birth''),
            lit_ic (str ''DOB:'')],
      Wordb, Rep is_label_tail 0 None]"

text \<open>\<open>[A-Za-z]{1,2}\<close>\<close>

definition re_short :: rx where
  "re_short = Rep is_latin 1 (Some 2)"

text \<open>\<open>\b(MALE|FEMALE|VID|Aadhaar|AADHAAR|UID)\b.*$\<close> with \<open>re.IGNORECASE\<close>\<close>

definition re_trailing :: rx where
  "re_trailing = seqs [Wordb,
      alts [lit_ic (str ''MALE''), lit_ic (str ''FEMALE''), lit_ic (str ''VID''),
            lit_ic (str ''Aadhaar''), lit_ic (str ''AADHAAR''), lit_ic (str ''UID'')],
      Wordb, Rep (\<lambda>c. c \<noteq> 10) 0 None, Eos]"

text \<open>\<open>[^A-Za-z\u0900-\u097F\s\.\'\-]\<close>, \<open>\s{2,}\<close>, \<open>[A-Za-z]\<close> and \<open>[A-Za-z]\.\<close>\<close>

definition re_not_kept :: rx where
  "re_not_kept = Chr (\<lambda>c. \<not> is_kept c)"

definition re_spaces2 :: rx where
  "re_spaces2 = Rep is_space 2 None"

definition re_latin :: rx where
  "re_latin = Chr is_latin"

definition re_initial :: rx where
  "re_initial = seqs [Chr is_latin, Chr (\<lambda>c. c = 46)]"

text \<open>The body of the loop over the tokens: what is appended to \<open>out_tokens\<close>.\<close>

definition case_token :: "ustr \<Rightarrow> ustr" where
  "case_token tok =
     (if re_search re_latin tok \<noteq> None
      then (if re_fullmatch re_initial tok then upper tok else title tok)
      else tok)"

text \<open>
  \<open>clean_extracted_name\<close>. The argument is \<open>None\<close> or a string; \<open>not raw_name\<close>
  holds for \<open>None\<close> and for the empty string.
\<close>

definition clean_extracted_name :: "ustr option \<Rightarrow> ustr option" where
  "clean_extracted_name raw_name =
     (case raw_name of
        None \<Rightarrow> None
      | Some raw \<Rightarrow>
          if raw = [] then None
          else
            let s1 = strip raw;
                s2 = re_sub re_lead_nonletter [] s1;
                s3 = re_sub re_label [] s2;
                parts = split s3;
                parts' = (if 1 < length parts \<and> re_fullmatch re_short (parts ! 0)
                          then drop 1 parts else parts);
                s4 = join_sp parts';
                s5 = strip (re_sub re_trailing [] s4);
                s6 = re_sub re_not_kept [32] s5;
                s7 = strip (re_sub re_spaces2 [32] s6)
            in if s7 = [] then None
               else
                 let res = join_sp (map case_token (split s7))
                 in if length (split res) < 2 then None else Some res)"

section \<open>Name extractor\<close>

text \<open>\<open>if x:\<close> on an optional string: neither \<open>None\<close> nor empty.\<close>

definition truthy :: "ustr option \<Rightarrow> bool" where
  "truthy x = (case x of None \<Rightarrow> False | Some s \<Rightarrow> s \<noteq> [])"

text \<open>\<open>[l.strip() for l in t.splitlines() if l.strip()]\<close>\<close>

definition nonblank_lines :: "ustr \<Rightarrow> ustr list" where
  "nonblank_lines t = map strip (filter (\<lambda>l. strip l \<noteq> []) (splitlines t))"

text \<open>\<open>^[^\w\u0900-\u097F]+\<close> and \<open>^\d+\s+\<close>\<close>

definition re_lead_nonword :: rx where
  "re_lead_nonword = seqs [Bos, Rep (\<lambda>c. \<not> (is_word c \<or> is_deva c)) 1 None]"

definition re_num_prefix :: rx where
  "re_num_prefix = seqs [Bos, Rep is_decimal 1 None, Rep is_space 1 None]"

text \<open>
  The loop of \<open>find_by_dob_block\<close> from index \<open>i\<close> on: a line with a date whose
  predecessor cleans to a name ends the search; any other line is passed over.
\<close>

function dob_loop :: "ustr list \<Rightarrow> nat \<Rightarrow> error + ustr option" where
  "dob_loop lines i =
     (if length lines \<le> i then Inr None
      else if re_search re_date (lines ! i) \<noteq> None \<and> 0 < i then
        (case py_get lines (int i - 1) of
           Inl err \<Rightarrow> Inl err
         | Inr cand \<Rightarrow>
             let cand1 = re_sub re_lead_nonword [] cand;
                 cand2 = re_sub re_num_prefix [] cand1;
                 cleaned = clean_extracted_name (Some cand2)
             in if truthy cleaned then Inr cleaned else dob_loop lines (Suc i))
      else dob_loop lines (Suc i))"
  by pat_completeness auto
termination
  by (relation "measure (\<lambda>(lines, i). length lines - i)") auto

text \<open>\<open>t.splitlines()\<close> on \<open>None\<close> raises \<open>AttributeError\<close>.\<close>

definition find_by_dob_block :: "ustr option \<Rightarrow> error + ustr option" where
  "find_by_dob_block t =
     (case t of
        None \<Rightarrow> Inl AttributeError
      | Some t' \<Rightarrow> dob_loop (nonblank_lines t') 0)"

text \<open>
  \<open>(?:\d+\s*)?([A-Za-z\u0900-\u097F][A-Za-z\u0900-\u097F'\-\.]{1,})\s+([A-Za-z\u0900-\u097F][A-Za-z\u0900-\u097F'\-\.]{1,})\<close>
\<close>

definition re_two_words :: rx where
  "re_two_words = seqs [Alt (seqs [Rep is_decimal 1 None, Rep is_space 0 None]) Eps,
      Chr is_letter, Rep is_name_char 1 None, Rep is_space 1 None,
      Chr is_letter, Rep is_name_char 1 None]"

text \<open>
  The loop over the lines that looks for a two-word line; the source has it twice,
  for the crop text and for the full text, with the same body.
\<close>

fun two_word_loop :: "ustr list \<Rightarrow> ustr option" where
  "two_word_loop [] = None"
| "two_word_loop (line # rest) =
     (case re_match re_two_words line of
        None \<Rightarrow> two_word_loop rest
      | Some e \<Rightarrow>
          let cand = slice line 0 e;
              cand1 = re_sub re_num_prefix [] cand;
              cleaned = clean_extracted_name (Some cand1)
          in if truthy cleaned then cleaned else two_word_loop rest)"

text \<open>
  \<open>extract_name(text, text_crop=None)\<close>: the crop text is consulted when it is
  neither \<open>None\<close> nor empty; the full text is read only after that.
\<close>

definition extract_name :: "ustr option \<Rightarrow> ustr option \<Rightarrow> error + ustr option" where
  "extract_name text text_crop =
     (case (if truthy text_crop then
              (case find_by_dob_block text_crop of
                 Inl err \<Rightarrow> Inl err
               | Inr name_from_crop \<Rightarrow>
                   if truthy name_from_crop then Inr name_from_crop
                   else Inr (two_word_loop (nonblank_lines (the text_crop))))
            else Inr None) of
        Inl err \<Rightarrow> Inl err
      | Inr (Some name) \<Rightarrow> Inr (Some name)
      | Inr None \<Rightarrow>
          (case find_by_dob_block text of
             Inl err \<Rightarrow> Inl err
           | Inr name_from_full \<Rightarrow>
               if truthy name_from_full then Inr name_from_full
               else (case text of
                       None \<Rightarrow> Inl AttributeError
                     | Some t \<Rightarrow> Inr (two_word_loop (nonblank_lines t)))))"


section \<open>Shapes of the results\<close>

text \<open>
  The shapes the specification gives for the extracted fields, as predicates on
  strings. \<open>date_shaped\<close>: two digits, a separator, two digits, a separator, four
  digits, and nothing else.
\<close>

definition date_shaped :: "ustr \<Rightarrow> bool" where
  "date_shaped r \<longleftrightarrow>
     length r = 10 \<and> list_all is_decimal (slice r 0 2) \<and> is_date_sep (r ! 2)
     \<and> list_all is_decimal (slice r 3 5) \<and> is_date_sep (r ! 5)
     \<and> list_all is_decimal (slice r 6 10)"

text \<open>
  \<open>aadhar_shaped\<close>: four digits, a space, four digits, a space, four digits, and
  nothing else.
\<close>

definition aadhar_shaped :: "ustr \<Rightarrow> bool" where
  "aadhar_shaped r \<longleftrightarrow>
     length r = 14 \<and> list_all is_decimal (slice r 0 4) \<and> r ! 4 = 32
     \<and> list_all is_decimal (slice r 5 9) \<and> r ! 9 = 32
     \<and> list_all is_decimal (slice r 10 14)"

text \<open>\<open>regroup\<close>: twelve digits written as three groups of four.\<close>

definition regroup :: "ustr \<Rightarrow> ustr" where
  "regroup ds = slice ds 0 4 @ [32] @ slice ds 4 8 @ [32] @ slice ds 8 12"

text \<open>
  \<open>aadhar_match_at s j\<close>: the pattern of \<open>extract_aadhar\<close> matches at position
  \<open>j\<close> of \<open>s\<close>, so that a 12-digit candidate starts there.
\<close>

definition aadhar_match_at :: "ustr \<Rightarrow> nat \<Rightarrow> bool" where
  "aadhar_match_at s j \<longleftrightarrow> ends re_aadhar s j \<noteq> []"

section \<open>The search strategies, stated apart from the loops\<close>

text \<open>
  \<open>dob_candidate\<close>: what \<open>find_by_dob_block\<close> makes of the line before a date line
  (the two prefix removals, then the cleaner).
\<close>

definition dob_candidate :: "ustr \<Rightarrow> ustr option" where
  "dob_candidate cand =
     clean_extracted_name (Some (re_sub re_num_prefix [] (re_sub re_lead_nonword [] cand)))"

definition date_line :: "ustr \<Rightarrow> bool" where
  "date_line l \<longleftrightarrow> re_search re_date l \<noteq> None"

text \<open>
  Line \<open>i\<close> is a hit of the DOB-anchored search: it holds a date, it has a
  predecessor, and the predecessor cleans to a name.
\<close>

definition dob_hit :: "ustr list \<Rightarrow> nat \<Rightarrow> bool" where
  "dob_hit lines i \<longleftrightarrow>
     0 < i \<and> i < length lines \<and> date_line (lines ! i) \<and> truthy (dob_candidate (lines ! (i - 1)))"

text \<open>The DOB-anchored strategy: the name before the first hit.\<close>

definition dob_anchored :: "ustr \<Rightarrow> ustr option" where
  "dob_anchored t =
     (case find (dob_hit (nonblank_lines t)) [0..<length (nonblank_lines t)] of
        None \<Rightarrow> None
      | Some i \<Rightarrow> dob_candidate (nonblank_lines t ! (i - 1)))"

text \<open>The two-token strategy on a text.\<close>

definition two_token :: "ustr \<Rightarrow> ustr option" where
  "two_token t = two_word_loop (nonblank_lines t)"

text \<open>An ordered chain of strategies: the first result that is not absent.\<close>

fun first_some :: "'a option list \<Rightarrow> 'a option" where
  "first_some [] = None"
| "first_some (None # rs) = first_some rs"
| "first_some (Some r # rs) = Some r"

text \<open>The crop text as the strategies read it: an absent crop text offers no line.\<close>

definition crop_text :: "ustr option \<Rightarrow> ustr" where
  "crop_text text_crop = (case text_crop of None \<Rightarrow> [] | Some c \<Rightarrow> c)"

text \<open>\<open>single_spaced\<close>: no two whitespace characters stand next to each other.\<close>

fun single_spaced :: "ustr \<Rightarrow> bool" where
  "single_spaced (c # d # cs) \<longleftrightarrow> \<not> (is_space c \<and> is_space d) \<and> single_spaced (d # cs)"
| "single_spaced _ \<longleftrightarrow> True"

section \<open>Properties\<close>

subsection \<open>The matcher\<close>

declare sub_from.simps [simp del] dob_loop.simps [simp del] ends.simps(5) [simp del]

text \<open>
  The search as a recursion over the start position: the form in which it is evaluated
  on a given text.
\<close>

lemma search_from_rec:
  "search_from r s k =
     (if length s < k then None
      else if ends r s k \<noteq> [] then Some (k, hd (ends r s k))
      else search_from r s (Suc k))"
proof (cases "length s < k")
  case True
  then show ?thesis by (simp add: search_from_def del: upt_Suc)
next
  case False
  then have "[k..<Suc (length s)] = k # [Suc k..<Suc (length s)]"
    by (simp add: upt_conv_Cons del: upt_Suc)
  then show ?thesis using False by (simp add: search_from_def del: upt_Suc)
qed

lemmas eval_defs = str_def run_def is_decimal_def is_space_def is_date_sep_def slice_def seqs_def
  search_from_rec re_search_def re_sub_def sub_from.simps ends.simps(5)

lemma run_le_length: "run p n xs \<le> length xs"
  by (auto simp: run_def Let_def split: option.splits intro: le_trans [OF _ length_takeWhile_le] min.coboundedI2)

lemma run_all: "j \<le> run p n xs \<Longrightarrow> list_all p (take j xs)"
proof -
  assume "j \<le> run p n xs"
  then have j: "j \<le> length (takeWhile p xs)"
    by (auto simp: run_def Let_def split: option.splits)
  have "take j (takeWhile p xs @ dropWhile p xs) = take j (takeWhile p xs)"
    using j by (simp del: takeWhile_dropWhile_id)
  then have "take j xs = take j (takeWhile p xs)" by simp
  then have "set (take j xs) \<subseteq> set (takeWhile p xs)" by (simp add: set_take_subset)
  then show ?thesis by (auto simp: list_all_iff dest: set_takeWhileD)
qed

lemma run_bound: "run p (Some b) xs \<le> b"
  by (simp add: run_def Let_def)

lemma takeWhile_ge: "j \<le> length xs \<Longrightarrow> list_all p (take j xs) \<Longrightarrow> j \<le> length (takeWhile p xs)"
proof (induction xs arbitrary: j)
  case Nil then show ?case by simp
next
  case (Cons x xs) then show ?case by (cases j) auto
qed

lemma run_ge:
  "j \<le> length xs \<Longrightarrow> list_all p (take j xs) \<Longrightarrow> (\<forall>b. n = Some b \<longrightarrow> j \<le> b) \<Longrightarrow> j \<le> run p n xs"
  by (auto simp: run_def Let_def takeWhile_ge split: option.splits)

lemma ends_Rep_iff:
  "e \<in> set (ends (Rep p m n) s i) \<longleftrightarrow>
     (\<exists>j. e = i + j \<and> m \<le> j \<and> j \<le> length (drop i s) \<and> list_all p (take j (drop i s))
          \<and> (\<forall>b. n = Some b \<longrightarrow> j \<le> b))"
  (is "?L \<longleftrightarrow> ?R")
proof
  assume ?L
  then have "e \<in> (\<lambda>j. i + j) ` {m..<Suc (run p n (drop i s))}"
    by (simp add: ends.simps Let_def split: if_splits del: upt_Suc)
  then obtain j where "e = i + j" "j \<in> {m..<Suc (run p n (drop i s))}"
    by blast
  then have j: "e = i + j" "m \<le> j" "j \<le> run p n (drop i s)"
    by auto
  have "j \<le> length (drop i s)" using j(3) run_le_length [of p n "drop i s"] by simp
  moreover have "list_all p (take j (drop i s))" using j(3) by (rule run_all)
  moreover have "\<forall>b. n = Some b \<longrightarrow> j \<le> b" using j(3) run_bound [of p _ "drop i s"] by (auto intro: le_trans)
  ultimately show ?R using j by blast
next
  assume ?R
  then obtain j where j: "e = i + j" "m \<le> j" "j \<le> length (drop i s)" "list_all p (take j (drop i s))"
    "\<forall>b. n = Some b \<longrightarrow> j \<le> b" by blast
  then have "j \<le> run p n (drop i s)" by (intro run_ge) auto
  then have "e \<in> (\<lambda>j. i + j) ` {m..<Suc (run p n (drop i s))}" and "\<not> run p n (drop i s) < m"
    using j(1,2) by auto
  then show ?L by (simp add: ends.simps Let_def del: upt_Suc)
qed

lemma ends_Chr_iff:
  "e \<in> set (ends (Chr p) s i) \<longleftrightarrow> (i < length s \<and> p (s ! i) \<and> e = Suc i)"
  by auto

lemma ends_Seq_iff:
  "e \<in> set (ends (Seq a b) s i) \<longleftrightarrow> (\<exists>k \<in> set (ends a s i). e \<in> set (ends b s k))"
  by auto

lemma search_from_Some:
  "search_from r s k = Some (i, e) \<Longrightarrow>
     k \<le> i \<and> i \<le> length s \<and> e \<in> set (ends r s i) \<and> e = hd (ends r s i) \<and> (\<forall>j. k \<le> j \<and> j < i \<longrightarrow> ends r s j = [])"
proof -
  assume a: "search_from r s k = Some (i, e)"
  then have f: "find (\<lambda>i. ends r s i \<noteq> []) [k..<Suc (length s)] = Some i" and e: "e = hd (ends r s i)"
    by (auto simp: search_from_def split: option.splits simp del: upt_Suc)
  from f obtain n where n: "n < length [k..<Suc (length s)]" "ends r s ([k..<Suc (length s)] ! n) \<noteq> []"
     "i = [k..<Suc (length s)] ! n" "\<forall>j<n. \<not> ends r s ([k..<Suc (length s)] ! j) \<noteq> []"
    unfolding find_Some_iff by blast
  have i: "i = k + n" using n(1,3) by (simp add: nth_upt del: upt_Suc)
  have "ends r s j = []" if "k \<le> j" "j < i" for j
  proof -
    have "j - k < n" using that i by simp
    then have "ends r s ([k..<Suc (length s)] ! (j - k)) = []" using n(4) by blast
    moreover have "[k..<Suc (length s)] ! (j - k) = j" using that n(1) i by (simp add: nth_upt del: upt_Suc)
    ultimately show ?thesis by simp
  qed
  moreover have "ends r s i \<noteq> []" using n(2,3) by simp
  moreover have "i \<le> length s" using n(1) i by (simp del: upt_Suc)
  ultimately show ?thesis using e i by auto
qed

lemma search_from_None:
  "search_from r s k = None \<longleftrightarrow> (\<forall>i. k \<le> i \<and> i \<le> length s \<longrightarrow> ends r s i = [])"
proof -
  have "search_from r s k = None \<longleftrightarrow> find (\<lambda>i. ends r s i \<noteq> []) [k..<Suc (length s)] = None"
    by (simp add: search_from_def split: option.splits del: upt_Suc)
  also have "\<dots> \<longleftrightarrow> (\<forall>i \<in> set [k..<Suc (length s)]. ends r s i = [])"
    by (auto simp: find_None_iff simp del: upt_Suc)
  also have "\<dots> \<longleftrightarrow> (\<forall>i. k \<le> i \<and> i \<le> length s \<longrightarrow> ends r s i = [])"
    by (auto simp del: upt_Suc)
  finally show ?thesis .
qed

lemma search_from_SomeI:
  assumes "k \<le> i" "i \<le> length s" "ends r s i \<noteq> []" "\<forall>j. k \<le> j \<and> j < i \<longrightarrow> ends r s j = []"
  shows "search_from r s k = Some (i, hd (ends r s i))"
proof (cases "search_from r s k")
  case None
  then show ?thesis using assms by (simp add: search_from_None)
next
  case (Some p)
  obtain i' e' where p: "p = (i', e')" by (cases p)
  from search_from_Some [OF Some [unfolded p]] have
    h: "k \<le> i'" "i' \<le> length s" "ends r s i' \<noteq> []" "e' = hd (ends r s i')" "\<forall>j. k \<le> j \<and> j < i' \<longrightarrow> ends r s j = []"
    by auto
  have "i' = i"
  proof (rule ccontr)
    assume "i' \<noteq> i"
    then consider "i' < i" | "i < i'" by linarith
    then show False using h assms by cases auto
  qed
  then show ?thesis using Some p h by simp
qed

lemma set_ends_Rep:
  "set (ends (Rep p m n) s i) =
     {e. \<exists>j. e = i + j \<and> m \<le> j \<and> j \<le> length (drop i s) \<and> list_all p (take j (drop i s))
          \<and> (\<forall>b. n = Some b \<longrightarrow> j \<le> b)}"
  using ends_Rep_iff by blast

lemma set_ends_Rep_exact:
  "0 < m \<Longrightarrow> set (ends (Rep p m (Some m)) s i) =
     (if i + m \<le> length s \<and> list_all p (take m (drop i s)) then {i + m} else {})"
  unfolding set_ends_Rep by auto


lemma in_table_Cons: "in_table ((lo, hi) # tab) c \<longleftrightarrow> (lo \<le> c \<and> c \<le> hi) \<or> in_table tab c"
  by (simp add: in_table_def)

lemma in_table_Nil: "\<not> in_table [] c"
  by (simp add: in_table_def)

lemma space_not_decimal: "is_space c \<Longrightarrow> \<not> is_decimal c"
  unfolding is_space_def is_decimal_def decimal_table_def
  by (auto simp: in_table_Cons in_table_Nil)

lemma ends_plus_empty:
  "ends (Rep p (Suc 0) None) s j = [] \<longleftrightarrow> \<not> (j < length s \<and> p (s ! j))"
proof -
  have "ends (Rep p (Suc 0) None) s j = [] \<longleftrightarrow> set (ends (Rep p (Suc 0) None) s j) = {}"
    by simp
  also have "\<dots> \<longleftrightarrow> \<not> (j < length s \<and> p (s ! j))"
  proof
    assume a: "set (ends (Rep p (Suc 0) None) s j) = {}"
    show "\<not> (j < length s \<and> p (s ! j))"
    proof
      assume b: "j < length s \<and> p (s ! j)"
      then have "list_all p (take (Suc 0) (drop j s))"
        by (simp add: take_Suc_conv_app_nth hd_drop_conv_nth take_Suc)
      then have "j + Suc 0 \<in> set (ends (Rep p (Suc 0) None) s j)"
        unfolding ends_Rep_iff using b by auto
      with a show False by simp
    qed
  next
    assume a: "\<not> (j < length s \<and> p (s ! j))"
    show "set (ends (Rep p (Suc 0) None) s j) = {}"
    proof (rule ccontr)
      assume "set (ends (Rep p (Suc 0) None) s j) \<noteq> {}"
      then obtain e where "e \<in> set (ends (Rep p (Suc 0) None) s j)" by fastforce
      then obtain n where n: "Suc 0 \<le> n" "n \<le> length (drop j s)" "list_all p (take n (drop j s))"
        unfolding ends_Rep_iff by blast
      then have "j < length s" by simp
      moreover have "p (hd (take n (drop j s)))" using n by (cases "take n (drop j s)") auto
      then have "p (s ! j)" using n \<open>j < length s\<close> by (cases n) (simp_all add: hd_drop_conv_nth take_Suc)
      ultimately show False using a by simp
    qed
  qed
  finally show ?thesis .
qed

lemma drop_split2: "k \<le> i \<Longrightarrow> drop k s = slice s k i @ drop i s"
proof -
  assume "k \<le> i"
  then have "drop i s = drop (i - k) (drop k s)" by simp
  then show ?thesis unfolding slice_def by (simp only: append_take_drop_id)
qed

lemma drop_split3: "k \<le> i \<Longrightarrow> i \<le> e \<Longrightarrow> drop k s = slice s k i @ slice s i e @ drop e s"
  using drop_split2 [of k i s] drop_split2 [of i e s] by simp

lemma sub_from_strip_class:
  "k \<le> length s \<Longrightarrow> sub_from (Rep p (Suc 0) None) [] s k = filter (\<lambda>c. \<not> p c) (drop k s)"
proof (induction "Rep p (Suc 0) None" "[]::nat list" s k rule: sub_from.induct)
  case (1 s k)
  show ?case
  proof (cases "search_from (Rep p (Suc 0) None) s k")
    case None
    then have "\<forall>i. k \<le> i \<and> i < length s \<longrightarrow> \<not> p (s ! i)"
      by (auto simp: search_from_None ends_plus_empty)
    then have "\<forall>c \<in> set (drop k s). \<not> p c"
      by (auto simp: in_set_conv_nth)
    then have "filter (\<lambda>c. \<not> p c) (drop k s) = drop k s" by (simp add: filter_id_conv)
    then show ?thesis using None by (simp add: sub_from.simps)
  next
    case (Some q)
    obtain i e where q: "q = (i, e)" by (cases q)
    note S = Some [unfolded q]
    from search_from_Some [OF S] have h: "k \<le> i" "i \<le> length s" "e \<in> set (ends (Rep p (Suc 0) None) s i)"
      "\<forall>j. k \<le> j \<and> j < i \<longrightarrow> ends (Rep p (Suc 0) None) s j = []" by blast+
    from h(3) obtain n where n: "e = i + n" "Suc 0 \<le> n" "n \<le> length (drop i s)" "list_all p (take n (drop i s))"
      unfolding ends_Rep_iff by blast
    then have g: "k \<le> i \<and> i < e \<and> e \<le> length s" using h by auto
    have IH: "sub_from (Rep p (Suc 0) None) [] s e = filter (\<lambda>c. \<not> p c) (drop e s)"
      using "1.hyps"(1) [OF S refl g] g by simp
    have pre: "\<forall>c \<in> set (slice s k i). \<not> p c"
    proof
      fix c assume "c \<in> set (slice s k i)"
      then obtain m where m: "m < i - k" "c = s ! (k + m)"
        using h(1,2) by (auto simp: slice_def in_set_conv_nth)
      then have "ends (Rep p (Suc 0) None) s (k + m) = []" using h(4) by simp
      then show "\<not> p c" using m h(1,2) by (simp add: ends_plus_empty)
    qed
    have "drop k s = slice s k i @ take n (drop i s) @ drop e s"
      using drop_split3 [of k i e s] g n(1) by (simp add: slice_def)
    then have "filter (\<lambda>c. \<not> p c) (drop k s) = slice s k i @ filter (\<lambda>c. \<not> p c) (drop e s)"
      using pre n(4) by (simp add: filter_id_conv list_all_iff filter_empty_conv)
    then show ?thesis using S g IH by (subst sub_from.simps) simp
  qed
qed

subsection \<open>Evaluating the cleaner on a given candidate\<close>

text \<open>
  The cleaner as a chain of its intermediate strings: given each one in turn, the
  result follows.
\<close>

lemma clean_extracted_name_steps:
  assumes "raw \<noteq> []"
    and "strip raw = s1"
    and "re_sub re_lead_nonletter [] s1 = s2"
    and "re_sub re_label [] s2 = s3"
    and "split s3 = parts"
    and "(if 1 < length parts \<and> re_fullmatch re_short (parts ! 0) then drop 1 parts else parts) = parts'"
    and "join_sp parts' = s4"
    and "strip (re_sub re_trailing [] s4) = s5"
    and "re_sub re_not_kept [32] s5 = s6"
    and "strip (re_sub re_spaces2 [32] s6) = s7"
    and "join_sp (map case_token (split s7)) = res"
  shows "clean_extracted_name (Some raw)
         = (if s7 = [] then None else if length (split res) < 2 then None else Some res)"
  using assms(1) unfolding assms(2-11) [symmetric]
  by (simp add: clean_extracted_name_def Let_def)

lemmas char_defs = is_upper_def is_lower_def is_latin_def is_deva_def is_letter_def is_kept_def
  is_label_tail_def is_name_char_def is_word_def lower_ascii_def upper_ascii_def ci_eq_def
  is_linebreak_def

lemmas regex_defs = re_lead_nonletter_def re_label_def re_short_def re_trailing_def
  re_not_kept_def re_spaces2_def re_latin_def re_initial_def re_lead_nonword_def
  re_num_prefix_def re_two_words_def re_date_def re_aadhar_def re_spaces_def
  lit_ic_def alts_def word_boundary_def re_fullmatch_def re_match_def

lemmas string_defs = strip_def split_def splitlines_def case_token_def title_def upper_def

lemmas table_defs = in_table_Cons in_table_Nil decimal_table_def alnum_table_def

subsection \<open>Date extractor\<close>

lemma ends_re_date:
  assumes "e \<in> set (ends re_date s i)"
  shows "e = i + 10 \<and> e \<le> length s \<and> date_shaped (slice s i e)"
proof -
  from assms show ?thesis
    by (auto simp: re_date_def seqs_def set_ends_Rep_exact date_shaped_def slice_def drop_take
             eval_nat_numeral split: if_splits)
qed

text \<open>
  C2. For every transcript \<open>T\<close>, \<open>extract_dob\<close> returns absent, or a string of the
  shape two digits, \<open>/\<close> or \<open>-\<close>, two digits, \<open>/\<close> or \<open>-\<close>, four digits that is a
  contiguous piece of \<open>T\<close>, character for character. (Digits are the characters that
  \<open>\d\<close> accepts.)
\<close>

theorem extract_dob_verbatim:
  "extract_dob (Some T) = Inr None \<or>
   (\<exists>r. extract_dob (Some T) = Inr (Some r) \<and> date_shaped r \<and> sublist r T)"
proof (cases "re_search re_date T")
  case None
  then show ?thesis by (simp add: extract_dob_def)
next
  case (Some p)
  obtain i e where p: "p = (i, e)" by (cases p)
  from Some p have "search_from re_date T 0 = Some (i, e)" by (simp add: re_search_def)
  from search_from_Some [OF this] have "e \<in> set (ends re_date T i)" by blast
  then have "date_shaped (slice T i e)" by (simp add: ends_re_date)
  moreover have "T = take i T @ slice T i e @ drop (e - i) (drop i T)"
    by (simp add: slice_def del: drop_drop)
  then have "sublist (slice T i e) T" unfolding sublist_def by blast
  ultimately show ?thesis using Some p by (simp add: extract_dob_def)
qed


theorem extract_dob_verbatim_witness:
  "extract_dob (Some (str ''DOB: 01/02/1990 M'')) = Inr (Some (str ''01/02/1990''))
   \<and> date_shaped (str ''01/02/1990'') \<and> sublist (str ''01/02/1990'') (str ''DOB: 01/02/1990 M'')"
proof -
  have v: "extract_dob (Some (str ''DOB: 01/02/1990 M'')) = Inr (Some (str ''01/02/1990''))"
    by (simp add: eval_defs extract_dob_def re_date_def)
  from extract_dob_verbatim [of "str ''DOB: 01/02/1990 M''"] show ?thesis
    by (simp add: v)
qed

subsection \<open>Numeric-ID extractor\<close>

lemma slice_append: "a \<le> b \<Longrightarrow> b \<le> c \<Longrightarrow> slice s a c = slice s a b @ slice s b c"
proof -
  assume h: "a \<le> b" "b \<le> c"
  then have "c - a = (b - a) + (c - b)" by simp
  then have "take (c - a) (drop a s) = take (b - a) (drop a s) @ take (c - b) (drop (b - a) (drop a s))"
    by (simp only: take_add)
  then show ?thesis using h by (simp add: slice_def)
qed

lemma ends_re_aadhar:
  assumes "e \<in> set (ends re_aadhar s i)"
  shows "\<exists>g1 w1 g2 w2 g3. slice s i e = g1 @ w1 @ g2 @ w2 @ g3 \<and> e \<le> length s
           \<and> length g1 = 4 \<and> list_all is_decimal g1 \<and> length w1 \<le> 1 \<and> list_all is_space w1
           \<and> length g2 = 4 \<and> list_all is_decimal g2 \<and> length w2 \<le> 1 \<and> list_all is_space w2
           \<and> length g3 = 4 \<and> list_all is_decimal g3"
proof -
  from assms obtain e1 e2 e3 e4 where
    m: "e1 \<in> set (ends (Rep is_decimal 4 (Some 4)) s i)"
       "e2 \<in> set (ends (Rep is_space 0 (Some 1)) s e1)"
       "e3 \<in> set (ends (Rep is_decimal 4 (Some 4)) s e2)"
       "e4 \<in> set (ends (Rep is_space 0 (Some 1)) s e3)"
       "e \<in> set (ends (Rep is_decimal 4 (Some 4)) s e4)"
    by (auto simp: re_aadhar_def seqs_def)
  from m(1) have 1: "e1 = i + 4" "e1 \<le> length s" "list_all is_decimal (slice s i e1)"
    by (auto simp: ends_Rep_iff slice_def)
  from m(2) obtain j1 where 2: "e2 = e1 + j1" "j1 \<le> 1" "e2 \<le> length s" "list_all is_space (slice s e1 e2)"
    using 1(2) by (auto simp: ends_Rep_iff slice_def)
  from m(3) have 3: "e3 = e2 + 4" "e3 \<le> length s" "list_all is_decimal (slice s e2 e3)"
    by (auto simp: ends_Rep_iff slice_def)
  from m(4) obtain j2 where 4: "e4 = e3 + j2" "j2 \<le> 1" "e4 \<le> length s" "list_all is_space (slice s e3 e4)"
    using 3(2) by (auto simp: ends_Rep_iff slice_def)
  from m(5) have 5: "e = e4 + 4" "e \<le> length s" "list_all is_decimal (slice s e4 e)"
    by (auto simp: ends_Rep_iff slice_def)
  have le: "i \<le> e1" "e1 \<le> e2" "e2 \<le> e3" "e3 \<le> e4" "e4 \<le> e"
    using 1(1) 2(1) 3(1) 4(1) 5(1) by simp_all
  have "slice s i e = slice s i e1 @ slice s e1 e"
    using le by (intro slice_append) simp_all
  also have "slice s e1 e = slice s e1 e2 @ slice s e2 e"
    using le by (intro slice_append) simp_all
  also have "slice s e2 e = slice s e2 e3 @ slice s e3 e"
    using le by (intro slice_append) simp_all
  also have "slice s e3 e = slice s e3 e4 @ slice s e4 e"
    using le by (intro slice_append) simp_all
  finally have "slice s i e = slice s i e1 @ slice s e1 e2 @ slice s e2 e3 @ slice s e3 e4 @ slice s e4 e" .
  moreover have "length (slice s i e1) = 4" "length (slice s e2 e3) = 4" "length (slice s e4 e) = 4"
    "length (slice s e1 e2) \<le> 1" "length (slice s e3 e4) \<le> 1"
    using 1 2 3 4 5 by (simp_all add: slice_def)
  ultimately show ?thesis using 1 2 3 4 5 by blast
qed

lemma strip_groups:
  assumes "list_all is_decimal g1" "list_all is_space w1" "list_all is_decimal g2"
    "list_all is_space w2" "list_all is_decimal g3"
  shows "re_sub re_spaces [] (g1 @ w1 @ g2 @ w2 @ g3) = g1 @ g2 @ g3"
proof -
  have d: "filter (\<lambda>c. \<not> is_space c) g = g" if "list_all is_decimal g" for g
    using that space_not_decimal by (auto simp: filter_id_conv list_all_iff)
  have w: "filter (\<lambda>c. \<not> is_space c) w = []" if "list_all is_space w" for w
    using that by (auto simp: filter_empty_conv list_all_iff)
  have "re_sub re_spaces [] (g1 @ w1 @ g2 @ w2 @ g3)
        = filter (\<lambda>c. \<not> is_space c) (g1 @ w1 @ g2 @ w2 @ g3)"
    using sub_from_strip_class [of 0 "g1 @ w1 @ g2 @ w2 @ g3" is_space]
    by (simp add: re_sub_def re_spaces_def)
  then show ?thesis using assms by (simp add: d w)
qed

lemma regroup_shaped:
  assumes "length g1 = 4" "list_all is_decimal g1" "length g2 = 4" "list_all is_decimal g2"
    "length g3 = 4" "list_all is_decimal g3"
  shows "regroup (g1 @ g2 @ g3) = g1 @ [32] @ g2 @ [32] @ g3"
    and "aadhar_shaped (g1 @ [32] @ g2 @ [32] @ g3)"
  using assms by (simp_all add: regroup_def aadhar_shaped_def slice_def nth_append)

lemma extract_aadhar_at:
  assumes "re_search re_aadhar T = Some (i, e)"
  shows "\<exists>g1 w1 g2 w2 g3. slice T i e = g1 @ w1 @ g2 @ w2 @ g3
           \<and> length g1 = 4 \<and> list_all is_decimal g1 \<and> length w1 \<le> 1 \<and> list_all is_space w1
           \<and> length g2 = 4 \<and> list_all is_decimal g2 \<and> length w2 \<le> 1 \<and> list_all is_space w2
           \<and> length g3 = 4 \<and> list_all is_decimal g3
           \<and> extract_aadhar (Some T) = Inr (Some (g1 @ [32] @ g2 @ [32] @ g3))"
proof -
  from assms have "search_from re_aadhar T 0 = Some (i, e)" by (simp add: re_search_def)
  from search_from_Some [OF this] have "e \<in> set (ends re_aadhar T i)" by blast
  from ends_re_aadhar [OF this] obtain g1 w1 g2 w2 g3 where
    g: "slice T i e = g1 @ w1 @ g2 @ w2 @ g3"
       "length g1 = 4" "list_all is_decimal g1" "length w1 \<le> 1" "list_all is_space w1"
       "length g2 = 4" "list_all is_decimal g2" "length w2 \<le> 1" "list_all is_space w2"
       "length g3 = 4" "list_all is_decimal g3" by blast
  have s: "re_sub re_spaces [] (slice T i e) = g1 @ g2 @ g3"
    using g by (simp add: strip_groups)
  have "extract_aadhar (Some T) = Inr (Some (regroup (g1 @ g2 @ g3)))"
    using assms g(2,6,10) by (simp add: extract_aadhar_def s regroup_def Let_def)
  then have "extract_aadhar (Some T) = Inr (Some (g1 @ [32] @ g2 @ [32] @ g3))"
    using regroup_shaped(1) [of g1 g2 g3] g by simp
  then show ?thesis using g by blast
qed

text \<open>
  C1. For every transcript \<open>T\<close>, \<open>extract_aadhar\<close> returns absent, or a string of
  exactly twelve digits in three groups of four with one space between the groups.
  (Digits are the characters that \<open>\d\<close> accepts.)
\<close>

theorem extract_aadhar_shape:
  "extract_aadhar (Some T) = Inr None \<or>
   (\<exists>r. extract_aadhar (Some T) = Inr (Some r) \<and> aadhar_shaped r)"
proof (cases "re_search re_aadhar T")
  case None
  then show ?thesis by (simp add: extract_aadhar_def)
next
  case (Some p)
  obtain i e where "p = (i, e)" by (cases p)
  with Some have "re_search re_aadhar T = Some (i, e)" by simp
  from extract_aadhar_at [OF this] show ?thesis
    using regroup_shaped(2) by blast
qed

theorem extract_aadhar_shape_witness:
  "extract_aadhar (Some (str ''No 1234 5678 9123'')) = Inr (Some (str ''1234 5678 9123''))
   \<and> aadhar_shaped (str ''1234 5678 9123'')"
proof -
  have v: "extract_aadhar (Some (str ''No 1234 5678 9123'')) = Inr (Some (str ''1234 5678 9123''))"
    by (simp add: eval_defs extract_aadhar_def re_aadhar_def re_spaces_def)
  from extract_aadhar_shape [of "str ''No 1234 5678 9123''"] show ?thesis
    by (simp add: v)
qed

subsection \<open>Numeric-ID extractor: the groups of a match\<close>

lemma run_split_unique:
  assumes "list_all P a" "list_all P a'" "r \<noteq> []" "\<not> P (hd r)" "r' \<noteq> []" "\<not> P (hd r')"
    and eq: "a @ r = a' @ r'"
  shows "a = a' \<and> r = r'"
proof -
  have t: "takeWhile P (b @ q) = b" if "list_all P b" "q \<noteq> []" "\<not> P (hd q)" for b q
  proof -
    from that obtain x xs where "q = x # xs" "\<not> P x" by (cases q) auto
    then show ?thesis using that(1) by (simp add: list_all_iff)
  qed
  have "takeWhile P (a @ r) = a" by (rule t [OF assms(1,3,4)])
  moreover have "takeWhile P (a' @ r') = a'" by (rule t [OF assms(2,5,6)])
  ultimately have "a = a'" using eq by simp
  then show ?thesis using eq by simp
qed

lemma hd_decimal_not_space: "length g = 4 \<Longrightarrow> list_all is_decimal g \<Longrightarrow> g @ r \<noteq> [] \<and> \<not> is_space (hd (g @ r))"
  using space_not_decimal by (cases g) auto

lemma groups_unique:
  assumes g: "length g1 = 4" "list_all is_decimal g1" "length g2 = 4" "list_all is_decimal g2"
      "length g3 = 4" "list_all is_decimal g3" "list_all is_space w1" "list_all is_space w2"
    and h: "length h1 = 4" "list_all is_decimal h1" "length h2 = 4" "list_all is_decimal h2"
      "length h3 = 4" "list_all is_decimal h3" "list_all is_space v1" "list_all is_space v2"
    and eq: "g1 @ w1 @ g2 @ w2 @ g3 @ r = h1 @ v1 @ h2 @ v2 @ h3 @ q"
  shows "g1 = h1 \<and> w1 = v1 \<and> g2 = h2 \<and> w2 = v2 \<and> g3 = h3"
proof -
  from eq g(1) h(1) have 1: "g1 = h1" "w1 @ g2 @ w2 @ g3 @ r = v1 @ h2 @ v2 @ h3 @ q" by simp_all
  from run_split_unique [OF g(7) h(7) _ _ _ _ 1(2)]
    hd_decimal_not_space [OF g(3,4)] hd_decimal_not_space [OF h(3,4)]
  have 2: "w1 = v1" "g2 @ w2 @ g3 @ r = h2 @ v2 @ h3 @ q" by blast+
  from 2(2) g(3) h(3) have 3: "g2 = h2" "w2 @ g3 @ r = v2 @ h3 @ q" by simp_all
  from run_split_unique [OF g(8) h(8) _ _ _ _ 3(2)]
    hd_decimal_not_space [OF g(5,6)] hd_decimal_not_space [OF h(5,6)]
  have 4: "w2 = v2" "g3 @ r = h3 @ q" by blast+
  from 4(2) g(5) h(5) have "g3 = h3" by simp
  with 1 2 3 4 show ?thesis by simp
qed

lemma ends_Rep_append:
  assumes "drop i s = w @ rest" "list_all p w" "m \<le> length w" "\<forall>b. n = Some b \<longrightarrow> length w \<le> b"
  shows "i + length w \<in> set (ends (Rep p m n) s i)" and "drop (i + length w) s = rest"
proof -
  have "take (length w) (drop i s) = w" using assms(1) by simp
  then show "i + length w \<in> set (ends (Rep p m n) s i)"
    unfolding ends_Rep_iff using assms by (intro exI [of _ "length w"]) auto
  have "drop (i + length w) s = drop (length w) (drop i s)" by (simp add: add.commute)
  then show "drop (i + length w) s = rest" using assms(1) by simp
qed

lemma ends_re_aadhar_intro:
  assumes "drop i s = g1 @ w1 @ g2 @ w2 @ g3 @ rest"
    "length g1 = 4" "list_all is_decimal g1" "length w1 \<le> 1" "list_all is_space w1"
    "length g2 = 4" "list_all is_decimal g2" "length w2 \<le> 1" "list_all is_space w2"
    "length g3 = 4" "list_all is_decimal g3"
  shows "ends re_aadhar s i \<noteq> []"
proof -
  let ?e1 = "i + length g1" let ?e2 = "?e1 + length w1" let ?e3 = "?e2 + length g2"
  let ?e4 = "?e3 + length w2" let ?e5 = "?e4 + length g3"
  note a = ends_Rep_append [where n = "Some 4" and m = 4 and p = is_decimal]
  note b = ends_Rep_append [where n = "Some 1" and m = 0 and p = is_space]
  have 1: "?e1 \<in> set (ends (Rep is_decimal 4 (Some 4)) s i)" "drop ?e1 s = w1 @ g2 @ w2 @ g3 @ rest"
    using a [OF assms(1)] assms by simp_all
  have 2: "?e2 \<in> set (ends (Rep is_space 0 (Some 1)) s ?e1)" "drop ?e2 s = g2 @ w2 @ g3 @ rest"
    using b [OF 1(2)] assms by simp_all
  have 3: "?e3 \<in> set (ends (Rep is_decimal 4 (Some 4)) s ?e2)" "drop ?e3 s = w2 @ g3 @ rest"
    using a [OF 2(2)] assms by simp_all
  have 4: "?e4 \<in> set (ends (Rep is_space 0 (Some 1)) s ?e3)" "drop ?e4 s = g3 @ rest"
    using b [OF 3(2)] assms by simp_all
  have 5: "?e5 \<in> set (ends (Rep is_decimal 4 (Some 4)) s ?e4)"
    using a(1) [OF 4(2)] assms by simp
  have "?e5 \<in> set (ends re_aadhar s i)"
    unfolding re_aadhar_def seqs_def using 1(1) 2(1) 3(1) 4(1) 5
    by (simp only: foldr.simps o_apply ends_Seq_iff ends.simps(2)) auto
  then show ?thesis by auto
qed

lemma ends_re_aadhar_start:
  assumes "ends re_aadhar s i \<noteq> []"
  shows "i < length s \<and> is_decimal (s ! i)"
proof -
  from assms obtain e where "e \<in> set (ends re_aadhar s i)" by (cases "ends re_aadhar s i") auto
  then obtain e1 where "e1 \<in> set (ends (Rep is_decimal 4 (Some 4)) s i)"
    by (auto simp: re_aadhar_def seqs_def)
  then have h: "4 \<le> length (drop i s)" "list_all is_decimal (take 4 (drop i s))"
    by (auto simp: ends_Rep_iff)
  then have "i < length s" by simp
  moreover from h obtain x xs where "drop i s = x # xs" by (cases "drop i s") auto
  then have "is_decimal x" "x = s ! i" using h(2) \<open>i < length s\<close>
    by (simp_all add: hd_drop_conv_nth [symmetric])
  ultimately show ?thesis by simp
qed

lemma no_digit_no_match:
  assumes "list_all (\<lambda>c. \<not> is_decimal c) pre" "j < length pre"
  shows "\<not> aadhar_match_at (pre @ rest) j"
proof
  assume "aadhar_match_at (pre @ rest) j"
  then have "is_decimal ((pre @ rest) ! j)"
    using ends_re_aadhar_start unfolding aadhar_match_at_def by blast
  moreover have "(pre @ rest) ! j = pre ! j" using assms(2) by (simp add: nth_append)
  ultimately show False using assms by (auto simp: list_all_length)
qed

lemma short_no_match: "length s < j + 12 \<Longrightarrow> \<not> aadhar_match_at s j"
proof
  assume l: "length s < j + 12" and "aadhar_match_at s j"
  then obtain e where "e \<in> set (ends re_aadhar s j)"
    unfolding aadhar_match_at_def by (cases "ends re_aadhar s j") auto
  from ends_re_aadhar [OF this] obtain g1 w1 g2 w2 g3 where
    g: "slice s j e = g1 @ w1 @ g2 @ w2 @ g3" "length g1 = 4" "length g2 = 4" "length g3 = 4"
    by blast
  then have "12 \<le> length (slice s j e)" by simp
  moreover have "length (slice s j e) \<le> length s - j" by (simp add: slice_def)
  ultimately show False using l by simp
qed

lemma extract_aadhar_groups:
  assumes g: "length g1 = 4" "list_all is_decimal g1" "length g2 = 4" "list_all is_decimal g2"
      "length g3 = 4" "list_all is_decimal g3" "list_all is_space w1" "list_all is_space w2"
    and w: "length w1 \<le> 1" "length w2 \<le> 1"
    and pre: "\<forall>j<length pre. \<not> aadhar_match_at (pre @ g1 @ w1 @ g2 @ w2 @ g3 @ post) j"
  shows "extract_aadhar (Some (pre @ g1 @ w1 @ g2 @ w2 @ g3 @ post))
         = Inr (Some (g1 @ [32] @ g2 @ [32] @ g3))"
proof -
  define s where "s = pre @ g1 @ w1 @ g2 @ w2 @ g3 @ post"
  let ?i = "length pre"
  have d: "drop ?i s = g1 @ w1 @ g2 @ w2 @ g3 @ post" by (simp add: s_def)
  have ne: "ends re_aadhar s ?i \<noteq> []"
    using ends_re_aadhar_intro [OF d] g w by simp
  have none: "\<forall>j. 0 \<le> j \<and> j < ?i \<longrightarrow> ends re_aadhar s j = []"
    using pre by (simp add: aadhar_match_at_def s_def)
  have il: "?i \<le> length s" by (simp add: s_def)
  have "search_from re_aadhar s 0 = Some (?i, hd (ends re_aadhar s ?i))"
    using ne none il by (intro search_from_SomeI) simp_all
  then have sr: "re_search re_aadhar s = Some (?i, hd (ends re_aadhar s ?i))"
    by (simp add: re_search_def)
  let ?e = "hd (ends re_aadhar s ?i)"
  from extract_aadhar_at [OF sr] obtain h1 v1 h2 v2 h3 where
    h: "slice s ?i ?e = h1 @ v1 @ h2 @ v2 @ h3"
       "length h1 = 4" "list_all is_decimal h1" "list_all is_space v1"
       "length h2 = 4" "list_all is_decimal h2" "list_all is_space v2"
       "length h3 = 4" "list_all is_decimal h3"
       "extract_aadhar (Some s) = Inr (Some (h1 @ [32] @ h2 @ [32] @ h3))" by blast
  define rest where "rest = drop (?e - ?i) (drop ?i s)"
  have "drop ?i s = slice s ?i ?e @ rest"
    unfolding slice_def rest_def by (simp only: append_take_drop_id)
  then have "g1 @ w1 @ g2 @ w2 @ g3 @ post = h1 @ v1 @ h2 @ v2 @ h3 @ rest"
    using d h(1) by simp
  from groups_unique [OF g h(2-3,5-6,8-9,4,7) this]
  show ?thesis using h(10) unfolding s_def by simp
qed

subsection \<open>Numeric-ID extractor: long runs and wide gaps\<close>

lemma extract_aadhar_wide_gap:
  assumes g: "length g1 = 4" "list_all is_decimal g1" "length g2 = 4" "list_all is_decimal g2"
      "length g3 = 4" "list_all is_decimal g3" "list_all is_space w1" "list_all is_space w2"
    and wide: "1 < length w1 \<or> 1 < length w2"
    and only: "\<forall>j. j \<noteq> length pre \<longrightarrow> \<not> aadhar_match_at (pre @ g1 @ w1 @ g2 @ w2 @ g3 @ post) j"
  shows "extract_aadhar (Some (pre @ g1 @ w1 @ g2 @ w2 @ g3 @ post)) = Inr None"
proof -
  define s where "s = pre @ g1 @ w1 @ g2 @ w2 @ g3 @ post"
  have d: "drop (length pre) s = g1 @ w1 @ g2 @ w2 @ g3 @ post" by (simp add: s_def)
  have "re_search re_aadhar s = None"
  proof (rule ccontr)
    assume "re_search re_aadhar s \<noteq> None"
    then obtain i e where "search_from re_aadhar s 0 = Some (i, e)"
      by (auto simp: re_search_def)
    from search_from_Some [OF this] have ie: "e \<in> set (ends re_aadhar s i)" by blast
    then have "aadhar_match_at s i" by (auto simp: aadhar_match_at_def)
    then have i: "i = length pre" using only unfolding s_def by blast
    from ends_re_aadhar [OF ie] obtain h1 v1 h2 v2 h3 where
      h: "slice s i e = h1 @ v1 @ h2 @ v2 @ h3"
         "length h1 = 4" "list_all is_decimal h1" "length v1 \<le> 1" "list_all is_space v1"
         "length h2 = 4" "list_all is_decimal h2" "length v2 \<le> 1" "list_all is_space v2"
         "length h3 = 4" "list_all is_decimal h3" by blast
    define rest where "rest = drop (e - i) (drop i s)"
    have "drop i s = slice s i e @ rest"
      unfolding slice_def rest_def by (simp only: append_take_drop_id)
    then have "g1 @ w1 @ g2 @ w2 @ g3 @ post = h1 @ v1 @ h2 @ v2 @ h3 @ rest"
      using d h(1) i by simp
    from groups_unique [OF g h(2,3,6,7,10,11,5,9) this]
    have "w1 = v1" "w2 = v2" by simp_all
    then show False using wide h(4,8) by auto
  qed
  then show ?thesis unfolding s_def by (simp add: extract_aadhar_def)
qed

lemma w5_0: "\<not> aadhar_match_at (str ''12 1234567890123'') 0"
  by (simp add: aadhar_match_at_def eval_defs re_aadhar_def)

lemma w5_1: "\<not> aadhar_match_at (str ''12 1234567890123'') 1"
  by (simp add: aadhar_match_at_def eval_defs re_aadhar_def)

lemma w5_2: "\<not> aadhar_match_at (str ''12 1234567890123'') 2"
  by (simp add: aadhar_match_at_def eval_defs re_aadhar_def)


text \<open>
  C5, as the code has it. Take a run of thirteen digits in a transcript, with no
  12-digit candidate before it: the pattern matches at no position before the run.
  The pattern takes the first twelve digits of the run, and \<open>extract_aadhar\<close>
  returns them regrouped. What the pattern matches always holds exactly twelve digits
  once the whitespace is stripped, so the test \<open>len(digits) != 12\<close> rejects nothing.
\<close>

theorem extract_aadhar_13_digit_run:
  "(length ds = 13 \<and> list_all is_decimal ds
      \<and> (\<forall>j<length pre. \<not> aadhar_match_at (pre @ ds @ post) j)
      \<longrightarrow> extract_aadhar (Some (pre @ ds @ post)) = Inr (Some (regroup ds)))
   \<and> (re_search re_aadhar T = Some (i, e)
      \<longrightarrow> length (re_sub re_spaces [] (slice T i e)) = 12)"
proof (intro conjI impI)
  assume a: "length ds = 13 \<and> list_all is_decimal ds
      \<and> (\<forall>j<length pre. \<not> aadhar_match_at (pre @ ds @ post) j)"
  let ?g1 = "slice ds 0 4" let ?g2 = "slice ds 4 8" let ?g3 = "slice ds 8 12"
  have ds: "ds = ?g1 @ [] @ ?g2 @ [] @ ?g3 @ drop 12 ds"
  proof -
    have "ds = drop 0 ds" by simp
    also have "\<dots> = slice ds 0 4 @ slice ds 4 8 @ drop 8 ds" by (rule drop_split3) simp_all
    also have "drop 8 ds = slice ds 8 12 @ drop 12 ds" by (rule drop_split2) simp
    finally show ?thesis by simp
  qed
  have sh: "length ?g1 = 4" "length ?g2 = 4" "length ?g3 = 4"
    "list_all is_decimal ?g1" "list_all is_decimal ?g2" "list_all is_decimal ?g3"
    using a by (auto simp: slice_def list_all_iff dest: in_set_takeD in_set_dropD)
  have X: "pre @ ?g1 @ [] @ ?g2 @ [] @ ?g3 @ (drop 12 ds @ post) = pre @ ds @ post"
    using ds by (metis append.assoc)
  have none: "\<forall>j<length pre. \<not> aadhar_match_at (pre @ ?g1 @ [] @ ?g2 @ [] @ ?g3 @ (drop 12 ds @ post)) j"
    unfolding X using a by blast
  have E: "extract_aadhar (Some (pre @ ?g1 @ [] @ ?g2 @ [] @ ?g3 @ (drop 12 ds @ post)))
        = Inr (Some (?g1 @ [32] @ ?g2 @ [32] @ ?g3))"
    using sh none by (intro extract_aadhar_groups) simp_all
  show "extract_aadhar (Some (pre @ ds @ post)) = Inr (Some (regroup ds))"
    using E unfolding X regroup_def .
next
  assume "re_search re_aadhar T = Some (i, e)"
  then have "search_from re_aadhar T 0 = Some (i, e)" by (simp add: re_search_def)
  from search_from_Some [OF this] have "e \<in> set (ends re_aadhar T i)" by blast
  from ends_re_aadhar [OF this] obtain g1 w1 g2 w2 g3 where
    g: "slice T i e = g1 @ w1 @ g2 @ w2 @ g3"
       "length g1 = 4" "list_all is_decimal g1" "list_all is_space w1"
       "length g2 = 4" "list_all is_decimal g2" "list_all is_space w2"
       "length g3 = 4" "list_all is_decimal g3" by blast
  then show "length (re_sub re_spaces [] (slice T i e)) = 12"
    by (simp add: strip_groups)
qed

theorem extract_aadhar_13_digit_run_witness:
  "length (str ''1234567890123'') = 13 \<and> list_all is_decimal (str ''1234567890123'')
   \<and> \<not> aadhar_match_at (str ''12 1234567890123'') 0
   \<and> \<not> aadhar_match_at (str ''12 1234567890123'') 1
   \<and> \<not> aadhar_match_at (str ''12 1234567890123'') 2
   \<and> extract_aadhar (Some (str ''12 1234567890123'')) = Inr (Some (str ''1234 5678 9012''))
   \<and> re_search re_aadhar (str ''1234 5678 9012'') = Some (0, 14)
   \<and> length (re_sub re_spaces [] (slice (str ''1234 5678 9012'') 0 14)) = 12"
proof -
  have t: "str ''12 '' @ str ''1234567890123'' @ [] = str ''12 1234567890123''"
    by (simp add: str_def)
  have l: "length (str ''12 '') = 3" by (simp add: str_def)
  have n: "\<forall>j<3. \<not> aadhar_match_at (str ''12 1234567890123'') j"
    using w5_0 w5_1 w5_2 by (simp add: eval_nat_numeral All_less_Suc)
  have d: "length (str ''1234567890123'') = 13 \<and> list_all is_decimal (str ''1234567890123'')"
    by (simp add: str_def is_decimal_def)
  have h: "length (str ''1234567890123'') = 13 \<and> list_all is_decimal (str ''1234567890123'')
      \<and> (\<forall>j<length (str ''12 ''). \<not> aadhar_match_at (str ''12 '' @ str ''1234567890123'' @ []) j)"
    unfolding t l using n d by blast
  have s: "re_search re_aadhar (str ''1234 5678 9012'') = Some (0, 14)"
    by (simp add: eval_defs re_aadhar_def)
  have r: "regroup (str ''1234567890123'') = str ''1234 5678 9012''"
    by (simp add: regroup_def slice_def str_def)
  from extract_aadhar_13_digit_run [of "str ''1234567890123''" "str ''12 ''" "[]"
      "str ''1234 5678 9012''" 0 14] h s
  have "extract_aadhar (Some (str ''12 '' @ str ''1234567890123'' @ [])) = Inr (Some (regroup (str ''1234567890123'')))"
    and "length (re_sub re_spaces [] (slice (str ''1234 5678 9012'') 0 14)) = 12"
    by blast+
  then show ?thesis unfolding t r using h s w5_0 w5_1 w5_2 by simp
qed

theorem extract_aadhar_13_digits_counterexample:
  "extract_aadhar (Some (str ''1234567890123'')) = Inr (Some (str ''1234 5678 9012''))"
  by (simp add: eval_defs extract_aadhar_def re_aadhar_def re_spaces_def)

lemma r10_0: "\<not> aadhar_match_at (str ''01/02/1990 1234  5678 9012'') 0"
  by (simp add: aadhar_match_at_def eval_defs re_aadhar_def)

lemma r10_1: "\<not> aadhar_match_at (str ''01/02/1990 1234  5678 9012'') 1"
  by (simp add: aadhar_match_at_def eval_defs re_aadhar_def)

lemma r10_2: "\<not> aadhar_match_at (str ''01/02/1990 1234  5678 9012'') 2"
  by (simp add: aadhar_match_at_def eval_defs re_aadhar_def)

lemma r10_3: "\<not> aadhar_match_at (str ''01/02/1990 1234  5678 9012'') 3"
  by (simp add: aadhar_match_at_def eval_defs re_aadhar_def)

lemma r10_4: "\<not> aadhar_match_at (str ''01/02/1990 1234  5678 9012'') 4"
  by (simp add: aadhar_match_at_def eval_defs re_aadhar_def)

lemma r10_5: "\<not> aadhar_match_at (str ''01/02/1990 1234  5678 9012'') 5"
  by (simp add: aadhar_match_at_def eval_defs re_aadhar_def)

lemma r10_6: "\<not> aadhar_match_at (str ''01/02/1990 1234  5678 9012'') 6"
  by (simp add: aadhar_match_at_def eval_defs re_aadhar_def)

lemma r10_7: "\<not> aadhar_match_at (str ''01/02/1990 1234  5678 9012'') 7"
  by (simp add: aadhar_match_at_def eval_defs re_aadhar_def)

lemma r10_8: "\<not> aadhar_match_at (str ''01/02/1990 1234  5678 9012'') 8"
  by (simp add: aadhar_match_at_def eval_defs re_aadhar_def)

lemma r10_9: "\<not> aadhar_match_at (str ''01/02/1990 1234  5678 9012'') 9"
  by (simp add: aadhar_match_at_def eval_defs re_aadhar_def)

lemma r10_10: "\<not> aadhar_match_at (str ''01/02/1990 1234  5678 9012'') 10"
  by (simp add: aadhar_match_at_def eval_defs re_aadhar_def)

lemma r10_12: "\<not> aadhar_match_at (str ''01/02/1990 1234  5678 9012'') 12"
  by (simp add: aadhar_match_at_def eval_defs re_aadhar_def)

lemma r10_13: "\<not> aadhar_match_at (str ''01/02/1990 1234  5678 9012'') 13"
  by (simp add: aadhar_match_at_def eval_defs re_aadhar_def)

lemma r10_14: "\<not> aadhar_match_at (str ''01/02/1990 1234  5678 9012'') 14"
  by (simp add: aadhar_match_at_def eval_defs re_aadhar_def)

lemma r10_15: "\<not> aadhar_match_at (str ''01/02/1990 1234  5678 9012'') 15"
  by (simp add: aadhar_match_at_def eval_defs re_aadhar_def)

lemma a10_0: "\<not> aadhar_match_at (str ''No. 12 1234\<newline>5678 9012 3456'') 0"
  by (simp add: aadhar_match_at_def eval_defs re_aadhar_def)

lemma a10_1: "\<not> aadhar_match_at (str ''No. 12 1234\<newline>5678 9012 3456'') 1"
  by (simp add: aadhar_match_at_def eval_defs re_aadhar_def)

lemma a10_2: "\<not> aadhar_match_at (str ''No. 12 1234\<newline>5678 9012 3456'') 2"
  by (simp add: aadhar_match_at_def eval_defs re_aadhar_def)

lemma a10_3: "\<not> aadhar_match_at (str ''No. 12 1234\<newline>5678 9012 3456'') 3"
  by (simp add: aadhar_match_at_def eval_defs re_aadhar_def)

lemma a10_4: "\<not> aadhar_match_at (str ''No. 12 1234\<newline>5678 9012 3456'') 4"
  by (simp add: aadhar_match_at_def eval_defs re_aadhar_def)

lemma a10_5: "\<not> aadhar_match_at (str ''No. 12 1234\<newline>5678 9012 3456'') 5"
  by (simp add: aadhar_match_at_def eval_defs re_aadhar_def)

lemma a10_6: "\<not> aadhar_match_at (str ''No. 12 1234\<newline>5678 9012 3456'') 6"
  by (simp add: aadhar_match_at_def eval_defs re_aadhar_def)


text \<open>
  C10. Take a transcript that holds three groups of four digits with whitespace only
  between the groups. When each gap holds at most one whitespace character, whatever
  character it is (a newline too), and no 12-digit candidate starts before the groups,
  \<open>extract_aadhar\<close> returns the regrouped digits. When a gap holds two or more
  whitespace characters and the groups are the only 12-digit candidate (the pattern
  matches at no other position), \<open>extract_aadhar\<close> returns absent.
\<close>

theorem extract_aadhar_gap_rule:
  assumes "length g1 = 4" "list_all is_decimal g1" "length g2 = 4" "list_all is_decimal g2"
    "length g3 = 4" "list_all is_decimal g3" "list_all is_space w1" "list_all is_space w2"
  shows "(length w1 \<le> 1 \<and> length w2 \<le> 1
          \<and> (\<forall>j<length pre. \<not> aadhar_match_at (pre @ g1 @ w1 @ g2 @ w2 @ g3 @ post) j)
        \<longrightarrow> extract_aadhar (Some (pre @ g1 @ w1 @ g2 @ w2 @ g3 @ post))
              = Inr (Some (g1 @ [32] @ g2 @ [32] @ g3)))
       \<and> ((1 < length w1 \<or> 1 < length w2)
          \<and> (\<forall>j. j \<noteq> length pre \<longrightarrow> \<not> aadhar_match_at (pre @ g1 @ w1 @ g2 @ w2 @ g3 @ post) j)
        \<longrightarrow> extract_aadhar (Some (pre @ g1 @ w1 @ g2 @ w2 @ g3 @ post)) = Inr None)"
proof (intro conjI impI)
  assume "length w1 \<le> 1 \<and> length w2 \<le> 1
          \<and> (\<forall>j<length pre. \<not> aadhar_match_at (pre @ g1 @ w1 @ g2 @ w2 @ g3 @ post) j)"
  then show "extract_aadhar (Some (pre @ g1 @ w1 @ g2 @ w2 @ g3 @ post))
              = Inr (Some (g1 @ [32] @ g2 @ [32] @ g3))"
    using assms by (intro extract_aadhar_groups) simp_all
next
  assume "(1 < length w1 \<or> 1 < length w2)
          \<and> (\<forall>j. j \<noteq> length pre \<longrightarrow> \<not> aadhar_match_at (pre @ g1 @ w1 @ g2 @ w2 @ g3 @ post) j)"
  then show "extract_aadhar (Some (pre @ g1 @ w1 @ g2 @ w2 @ g3 @ post)) = Inr None"
    using assms by (intro extract_aadhar_wide_gap) simp_all
qed

theorem extract_aadhar_gap_rule_witness:
  "is_space 10
   \<and> extract_aadhar (Some (str ''No. 12 1234\<newline>5678 9012 3456'')) = Inr (Some (str ''1234 5678 9012''))
   \<and> extract_aadhar (Some (str ''01/02/1990 1234  5678 9012'')) = Inr None"
proof -
  have g: "length (str ''1234'') = 4" "list_all is_decimal (str ''1234'')"
    "length (str ''5678'') = 4" "list_all is_decimal (str ''5678'')"
    "length (str ''9012'') = 4" "list_all is_decimal (str ''9012'')"
    by (simp_all add: str_def is_decimal_def)
  have w: "list_all is_space [10]" "list_all is_space []" "list_all is_space [32, 32]"
    "list_all is_space [32]" "is_space 10"
    by (simp_all add: is_space_def)
  have ta: "str ''No. 12 '' @ str ''1234'' @ [10] @ str ''5678'' @ [32] @ str ''9012'' @ str '' 3456''
            = str ''No. 12 1234\<newline>5678 9012 3456''"
    by (simp add: str_def)
  have tr: "str ''01/02/1990 '' @ str ''1234'' @ [32, 32] @ str ''5678'' @ [32] @ str ''9012'' @ []
            = str ''01/02/1990 1234  5678 9012''"
    by (simp add: str_def)
  have l: "length (str ''01/02/1990 '') = 11" by (simp add: str_def)
  have la: "length (str ''No. 12 '') = 7" by (simp add: str_def)
  have na: "\<forall>j<7. \<not> aadhar_match_at (str ''No. 12 1234\<newline>5678 9012 3456'') j"
    using a10_0 a10_1 a10_2 a10_3 a10_4 a10_5 a10_6
    by (simp add: eval_nat_numeral All_less_Suc)
  have nr16: "\<forall>j<16. j \<noteq> 11 \<longrightarrow> \<not> aadhar_match_at (str ''01/02/1990 1234  5678 9012'') j"
    using r10_0 r10_1 r10_2 r10_3 r10_4 r10_5 r10_6 r10_7 r10_8 r10_9 r10_10 r10_12 r10_13 r10_14 r10_15
    by (simp add: eval_nat_numeral All_less_Suc)
  have nr: "\<not> aadhar_match_at (str ''01/02/1990 1234  5678 9012'') j" if "j \<noteq> 11" for j
  proof (cases "j < 16")
    case True
    then show ?thesis using nr16 that by blast
  next
    case False
    then have "length (str ''01/02/1990 1234  5678 9012'') < j + 12" by (simp add: str_def)
    then show ?thesis by (rule short_no_match)
  qed
  have ha: "length [10::nat] \<le> 1 \<and> length [32::nat] \<le> 1
      \<and> (\<forall>j<length (str ''No. 12 '').
            \<not> aadhar_match_at (str ''No. 12 '' @ str ''1234'' @ [10] @ str ''5678'' @ [32] @ str ''9012'' @ str '' 3456'') j)"
    unfolding ta la using na by simp
  have hr: "(1 < length [32::nat, 32] \<or> 1 < length [32::nat])
      \<and> (\<forall>j. j \<noteq> length (str ''01/02/1990 '')
            \<longrightarrow> \<not> aadhar_match_at (str ''01/02/1990 '' @ str ''1234'' @ [32, 32] @ str ''5678'' @ [32] @ str ''9012'' @ []) j)"
    unfolding tr l using nr by simp
  from extract_aadhar_gap_rule [OF g w(1,4), of "str ''No. 12 ''" "str '' 3456''"] ha
  have A: "extract_aadhar (Some (str ''No. 12 '' @ str ''1234'' @ [10] @ str ''5678'' @ [32] @ str ''9012'' @ str '' 3456''))
           = Inr (Some (str ''1234'' @ [32] @ str ''5678'' @ [32] @ str ''9012''))"
    by blast
  from extract_aadhar_gap_rule [OF g w(3,4), of "str ''01/02/1990 ''" "[]"] hr
  have R: "extract_aadhar (Some (str ''01/02/1990 '' @ str ''1234'' @ [32, 32] @ str ''5678'' @ [32] @ str ''9012'' @ []))
           = Inr None"
    by blast
  have v: "str ''1234'' @ [32] @ str ''5678'' @ [32] @ str ''9012'' = str ''1234 5678 9012''"
    by (simp add: str_def)
  show ?thesis using A R w(5) unfolding ta tr v by simp
qed

subsection \<open>The loop of the DOB-anchored search\<close>

lemma py_get_pred:
  "0 < i \<Longrightarrow> i < length xs \<Longrightarrow> py_get xs (int i - 1) = Inr (xs ! (i - 1))"
proof -
  assume a: "0 < i" "i < length xs"
  then have "int i - 1 = int (i - 1)" by simp
  then show ?thesis using a by (simp add: py_get_def del: of_nat_diff)
qed

lemma clean_truthy: "truthy (clean_extracted_name x) \<longleftrightarrow> clean_extracted_name x \<noteq> None"
proof (cases "clean_extracted_name x")
  case None
  then show ?thesis by (simp add: truthy_def)
next
  case (Some r)
  then have "2 \<le> length (split r)"
    by (auto simp: clean_extracted_name_def Let_def split: option.splits if_splits)
  then have "r \<noteq> []" by (auto simp: split_def)
  then show ?thesis using Some by (simp add: truthy_def)
qed

lemma dob_loop_step:
  "i < length lines \<Longrightarrow>
   dob_loop lines i = (if dob_hit lines i then Inr (dob_candidate (lines ! (i - 1)))
                       else dob_loop lines (Suc i))"
  by (subst dob_loop.simps)
     (auto simp: dob_hit_def date_line_def dob_candidate_def py_get_pred Let_def)

lemma dob_loop_find:
  "dob_loop lines i =
     Inr (case find (dob_hit lines) [i..<length lines] of
            None \<Rightarrow> None
          | Some j \<Rightarrow> dob_candidate (lines ! (j - 1)))"
proof (induction "length lines - i" arbitrary: i)
  case 0
  then have "length lines \<le> i" by simp
  then show ?case by (subst dob_loop.simps) simp
next
  case (Suc n)
  then have i: "i < length lines" by simp
  then have u: "[i..<length lines] = i # [Suc i..<length lines]" by (simp add: upt_conv_Cons)
  have "n = length lines - Suc i" using Suc(2) by simp
  from Suc(1) [OF this] show ?case using i by (simp add: dob_loop_step u)
qed

lemma find_by_dob_block_anchored: "find_by_dob_block (Some t) = Inr (dob_anchored t)"
  by (simp add: find_by_dob_block_def dob_anchored_def dob_loop_find)

lemma dob_anchored_truthy: "truthy (dob_anchored t) \<longleftrightarrow> dob_anchored t \<noteq> None"
proof (cases "find (dob_hit (nonblank_lines t)) [0..<length (nonblank_lines t)]")
  case None
  then show ?thesis by (simp add: dob_anchored_def truthy_def)
next
  case (Some i)
  then have "dob_hit (nonblank_lines t) i" by (auto simp: find_Some_iff)
  then have "truthy (dob_candidate (nonblank_lines t ! (i - 1)))" by (simp add: dob_hit_def)
  then show ?thesis using Some by (auto simp: dob_anchored_def truthy_def split: option.splits)
qed

lemma find_first:
  assumes "P i" "i < n" "\<forall>j<i. \<not> P j"
  shows "find P [0..<n] = Some i"
proof -
  have "[0..<n] ! i = i" using assms(2) by simp
  then show ?thesis unfolding find_Some_iff using assms
    by (intro exI [of _ i]) auto
qed

lemma dob_anchored_first:
  assumes "dob_hit (nonblank_lines t) i" "\<forall>j<i. \<not> dob_hit (nonblank_lines t) j"
  shows "dob_anchored t = dob_candidate (nonblank_lines t ! (i - 1))"
proof -
  have "i < length (nonblank_lines t)" using assms(1) by (simp add: dob_hit_def)
  from find_first [of "dob_hit (nonblank_lines t)", OF assms(1) this assms(2)]
  show ?thesis by (simp add: dob_anchored_def)
qed

lemma dob_anchored_None:
  "dob_anchored t = None \<longleftrightarrow> (\<forall>i. \<not> dob_hit (nonblank_lines t) i)"
proof
  assume a: "dob_anchored t = None"
  show "\<forall>i. \<not> dob_hit (nonblank_lines t) i"
  proof (rule ccontr)
    assume "\<not> (\<forall>i. \<not> dob_hit (nonblank_lines t) i)"
    then obtain i where i: "dob_hit (nonblank_lines t) i" by blast
    define k where "k = (LEAST j. dob_hit (nonblank_lines t) j)"
    have k: "dob_hit (nonblank_lines t) k" unfolding k_def using i by (rule LeastI)
    have "\<forall>j<k. \<not> dob_hit (nonblank_lines t) j" unfolding k_def using not_less_Least by blast
    from dob_anchored_first [OF k this] k have "truthy (dob_anchored t)" by (simp add: dob_hit_def)
    then show False using a by (simp add: truthy_def)
  qed
next
  assume "\<forall>i. \<not> dob_hit (nonblank_lines t) i"
  then have "find (dob_hit (nonblank_lines t)) [0..<length (nonblank_lines t)] = None"
    by (simp add: find_None_iff)
  then show "dob_anchored t = None" by (simp add: dob_anchored_def)
qed

subsection \<open>The chain of strategies\<close>

lemma nonblank_lines_empty: "nonblank_lines [] = []"
  by (simp add: nonblank_lines_def splitlines_def)

lemma dob_anchored_empty: "dob_anchored [] = None"
  by (simp add: dob_anchored_def nonblank_lines_empty)

lemma two_token_empty: "two_token [] = None"
  by (simp add: two_token_def nonblank_lines_empty)

lemma first_some_single [simp]: "first_some [x] = x"
  by (cases x) simp_all

lemma first_some_None [simp]: "first_some (None # rs) = first_some rs"
  by simp

lemma extract_name_chain:
  "extract_name (Some full) crop =
     Inr (first_some [dob_anchored (crop_text crop), two_token (crop_text crop),
                      dob_anchored full, two_token full])"
proof -
  have full: "(case find_by_dob_block (Some full) of
                 Inl err \<Rightarrow> Inl err
               | Inr name_from_full \<Rightarrow>
                   if truthy name_from_full then Inr name_from_full
                   else (case Some full of
                           None \<Rightarrow> Inl AttributeError
                         | Some t \<Rightarrow> Inr (two_word_loop (nonblank_lines t))))
              = Inr (first_some [dob_anchored full, two_token full])"
    using dob_anchored_truthy [of full]
    by (cases "dob_anchored full")
       (simp_all add: find_by_dob_block_anchored two_token_def truthy_def [of None])
  show ?thesis
  proof (cases "truthy crop")
    case False
    then have "crop_text crop = []"
      by (auto simp: truthy_def crop_text_def split: option.splits)
    then show ?thesis using False
      by (simp add: extract_name_def full dob_anchored_empty two_token_empty)
  next
    case True
    then obtain c where c: "crop = Some c" by (auto simp: truthy_def split: option.splits)
    show ?thesis
    proof (cases "dob_anchored c")
      case (Some n)
      then show ?thesis using True c dob_anchored_truthy [of c]
        by (simp add: extract_name_def crop_text_def find_by_dob_block_anchored)
    next
      case None
      have "extract_name (Some full) (Some c)
            = (case two_word_loop (nonblank_lines c) of
                 None \<Rightarrow> Inr (first_some [dob_anchored full, two_token full])
               | Some name \<Rightarrow> Inr (Some name))"
        unfolding extract_name_def full using True c None
        by (simp add: find_by_dob_block_anchored truthy_def [of None])
      then show ?thesis using c None
        by (cases "two_word_loop (nonblank_lines c)") (simp_all add: crop_text_def two_token_def)
    qed
  qed
qed

lemma extract_name_no_text:
  "extract_name None crop =
     (case first_some [dob_anchored (crop_text crop), two_token (crop_text crop)] of
        Some n \<Rightarrow> Inr (Some n)
      | None \<Rightarrow> Inl AttributeError)"
proof (cases "truthy crop")
  case False
  then have "crop_text crop = []"
    by (auto simp: truthy_def crop_text_def split: option.splits)
  then show ?thesis using False
    by (simp add: extract_name_def find_by_dob_block_def dob_anchored_empty two_token_empty)
next
  case True
  then obtain c where c: "crop = Some c" by (auto simp: truthy_def split: option.splits)
  show ?thesis
  proof (cases "dob_anchored c")
    case (Some n)
    then show ?thesis using True c dob_anchored_truthy [of c]
      by (simp add: extract_name_def crop_text_def find_by_dob_block_anchored)
  next
    case None
    then show ?thesis using True c
      by (cases "two_word_loop (nonblank_lines c)")
         (simp_all add: extract_name_def crop_text_def find_by_dob_block_anchored
            truthy_def [of None] two_token_def find_by_dob_block_def [of None])
  qed
qed

subsection \<open>Splitting, joining and trimming\<close>

lemma name_char_not_space: "is_name_char c \<Longrightarrow> \<not> is_space c"
  by (auto simp: is_name_char_def is_letter_def is_latin_def is_upper_def is_lower_def is_deva_def
      is_space_def)

lemma kept_not_space: "is_kept c \<Longrightarrow> \<not> is_space c \<Longrightarrow> is_name_char c"
  by (auto simp: is_kept_def is_name_char_def)

lemma name_char_kept: "is_name_char c \<Longrightarrow> is_kept c"
  by (auto simp: is_kept_def is_name_char_def)

lemma space_32: "is_space 32"
  by (simp add: is_space_def)

lemma set_strip: "set (strip s) \<subseteq> set s"
proof -
  have "set (strip s) = set (dropWhile is_space (rev (dropWhile is_space s)))"
    by (simp add: strip_def)
  also have "\<dots> \<subseteq> set (rev (dropWhile is_space s))" by (rule set_dropWhileD [THEN subsetI])
  also have "\<dots> \<subseteq> set s" using set_dropWhileD [of _ is_space s] by auto
  finally show ?thesis .
qed

lemma strip_id:
  assumes "s \<noteq> []" "\<not> is_space (hd s)" "\<not> is_space (last s)"
  shows "strip s = s"
proof -
  have 1: "dropWhile is_space s = s" using assms(1,2) by (cases s) auto
  have "rev s \<noteq> []" "\<not> is_space (hd (rev s))" using assms(1,3) by (simp_all add: hd_rev)
  then have "dropWhile is_space (rev s) = rev s" by (cases "rev s") auto
  then show ?thesis by (simp add: strip_def 1)
qed

text \<open>Tokens: not empty and free of whitespace.\<close>

lemma split_acc_tokens:
  "\<forall>c\<in>set cur. \<not> is_space c \<Longrightarrow> t \<in> set (split_acc cur s) \<Longrightarrow>
     t \<noteq> [] \<and> (\<forall>c\<in>set t. \<not> is_space c \<and> c \<in> set cur \<union> set s)"
proof (induction s arbitrary: cur)
  case Nil
  then have "t = cur" "cur \<noteq> []" by (simp_all split: if_splits)
  then show ?case using Nil(1) by simp
next
  case (Cons a s)
  show ?case
  proof (cases "is_space a")
    case True
    have e: "\<forall>c\<in>set ([]::nat list). \<not> is_space c" by simp
    show ?thesis
    proof (cases "cur = []")
      case True
      with \<open>is_space a\<close> Cons.prems(2) have "t \<in> set (split_acc [] s)" by simp
      from Cons.IH [OF e this] show ?thesis by simp
    next
      case False
      with \<open>is_space a\<close> Cons.prems(2) have "t = cur \<or> t \<in> set (split_acc [] s)" by simp
      then show ?thesis
      proof
        assume "t = cur"
        then show ?thesis using False Cons.prems(1) by simp
      next
        assume "t \<in> set (split_acc [] s)"
        from Cons.IH [OF e this] show ?thesis by simp
      qed
    qed
  next
    case False
    then have m: "t \<in> set (split_acc (cur @ [a]) s)" using Cons.prems(2) by simp
    have "\<forall>c\<in>set (cur @ [a]). \<not> is_space c" using Cons.prems(1) False by simp
    from Cons.IH [OF this m] show ?thesis by simp
  qed
qed

lemma split_tokens:
  "t \<in> set (split s) \<Longrightarrow> t \<noteq> [] \<and> (\<forall>c\<in>set t. \<not> is_space c \<and> c \<in> set s)"
  using split_acc_tokens [of "[]" t s] by (simp add: split_def)

lemma split_acc_token:
  "\<forall>c\<in>set t. \<not> is_space c \<Longrightarrow> split_acc cur (t @ rest) = split_acc (cur @ t) rest"
  by (induction t arbitrary: cur) simp_all

lemma split_acc_join:
  "\<forall>t\<in>set ts. t \<noteq> [] \<and> (\<forall>c\<in>set t. \<not> is_space c) \<Longrightarrow> split_acc [] (join_sp ts) = ts"
proof (induction ts rule: join_sp.induct)
  case 1
  then show ?case by simp
next
  case (2 p)
  then have "split_acc [] (p @ []) = split_acc ([] @ p) []" by (intro split_acc_token) simp
  then show ?case using 2 by simp
next
  case (3 p q ps)
  have "split_acc [] (p @ ([32] @ join_sp (q # ps))) = split_acc ([] @ p) ([32] @ join_sp (q # ps))"
    using 3(2) by (intro split_acc_token) simp
  also have "\<dots> = p # split_acc [] (join_sp (q # ps))" using 3(2) by (simp add: space_32)
  also have "split_acc [] (join_sp (q # ps)) = q # ps" using 3 by simp
  finally show ?case by simp
qed

lemma split_join:
  "\<forall>t\<in>set ts. t \<noteq> [] \<and> (\<forall>c\<in>set t. \<not> is_space c) \<Longrightarrow> split (join_sp ts) = ts"
  by (simp add: split_def split_acc_join)

lemma set_join_sp: "set (join_sp ts) \<subseteq> \<Union> (set ` set ts) \<union> {32}"
  by (induction ts rule: join_sp.induct) auto

lemma join_sp_Nil_iff: "\<forall>t\<in>set ts. t \<noteq> [] \<Longrightarrow> join_sp ts = [] \<longleftrightarrow> ts = []"
  by (induction ts rule: join_sp.induct) auto

lemma hd_join_sp: "ts \<noteq> [] \<Longrightarrow> hd ts \<noteq> [] \<Longrightarrow> hd (join_sp ts) = hd (hd ts)"
  by (induction ts rule: join_sp.induct) auto

lemma last_join_sp: "ts \<noteq> [] \<Longrightarrow> \<forall>t\<in>set ts. t \<noteq> [] \<Longrightarrow> last (join_sp ts) = last (last ts)"
proof (induction ts rule: join_sp.induct)
  case (3 p q ps)
  then have "join_sp (q # ps) \<noteq> []" using join_sp_Nil_iff [of "q # ps"] by simp
  then show ?case using 3 by simp
qed simp_all

subsection \<open>Case normalisation\<close>

text \<open>Case mapping keeps every class the cleaner distinguishes.\<close>

lemma latin_lower [simp]: "is_latin (lower_ascii c) = is_latin c"
  by (auto simp: is_latin_def is_upper_def is_lower_def lower_ascii_def)

lemma latin_upper [simp]: "is_latin (upper_ascii c) = is_latin c"
  by (auto simp: is_latin_def is_upper_def is_lower_def upper_ascii_def)

lemma name_char_lower [simp]: "is_name_char (lower_ascii c) = is_name_char c"
  by (auto simp: is_name_char_def is_letter_def is_deva_def is_latin_def is_upper_def is_lower_def
      lower_ascii_def)

lemma name_char_upper [simp]: "is_name_char (upper_ascii c) = is_name_char c"
  by (auto simp: is_name_char_def is_letter_def is_deva_def is_latin_def is_upper_def is_lower_def
      upper_ascii_def)

lemma lower_lower [simp]: "lower_ascii (lower_ascii c) = lower_ascii c"
  by (auto simp: is_upper_def lower_ascii_def)

lemma upper_upper [simp]: "upper_ascii (upper_ascii c) = upper_ascii c"
  by (auto simp: is_lower_def upper_ascii_def)

lemma lower_46 [simp]: "lower_ascii c = 46 \<longleftrightarrow> c = 46"
  by (auto simp: is_upper_def lower_ascii_def)

lemma upper_46 [simp]: "upper_ascii c = 46 \<longleftrightarrow> c = 46"
  by (auto simp: is_lower_def upper_ascii_def)

lemma title_acc_length [simp]: "length (title_acc b t) = length t"
  by (induction t arbitrary: b) simp_all

lemma title_acc_idem: "title_acc b (title_acc b t) = title_acc b t"
  by (induction t arbitrary: b) simp_all

lemma title_acc_name_chars: "list_all is_name_char (title_acc b t) = list_all is_name_char t"
  by (induction t arbitrary: b) simp_all

lemma title_acc_latin: "list_ex is_latin (title_acc b t) = list_ex is_latin t"
  by (induction t arbitrary: b) simp_all

lemma upper_latin: "list_ex is_latin (upper t) = list_ex is_latin t"
  by (induction t) (simp_all add: upper_def)

lemma upper_name_chars: "list_all is_name_char (upper t) = list_all is_name_char t"
  by (induction t) (simp_all add: upper_def)

lemma upper_idem: "upper (upper t) = upper t"
  by (simp add: upper_def)

text \<open>The two tests of the loop over the tokens, read off the token.\<close>

lemma ends_Chr_empty: "ends (Chr p) s j = [] \<longleftrightarrow> \<not> (j < length s \<and> p (s ! j))"
  by simp

lemma has_latin_iff: "re_search re_latin tok \<noteq> None \<longleftrightarrow> list_ex is_latin tok"
proof -
  have A: "re_search re_latin tok = None \<longleftrightarrow> (\<forall>i<length tok. \<not> is_latin (tok ! i))"
    unfolding re_search_def re_latin_def search_from_None ends_Chr_empty
    using le_eq_less_or_eq by auto
  have B: "list_ex is_latin tok \<longleftrightarrow> (\<exists>i<length tok. is_latin (tok ! i))"
    by (simp add: list_ex_length)
  show ?thesis unfolding A B by blast
qed

lemma initial_iff: "re_fullmatch re_initial tok \<longleftrightarrow> (\<exists>c. is_latin c \<and> tok = [c, 46])"
proof
  assume "re_fullmatch re_initial tok"
  then have "length tok = 2" "is_latin (tok ! 0)" "tok ! 1 = 46"
    by (auto simp: re_fullmatch_def re_initial_def seqs_def split: if_splits)
  then show "\<exists>c. is_latin c \<and> tok = [c, 46]"
    by (cases tok; cases "tl tok"; auto)
next
  assume "\<exists>c. is_latin c \<and> tok = [c, 46]"
  then show "re_fullmatch re_initial tok"
    by (auto simp: re_fullmatch_def re_initial_def seqs_def)
qed

lemma initial_title: "re_fullmatch re_initial (title tok) \<longleftrightarrow> re_fullmatch re_initial tok"
proof (cases tok)
  case Nil
  then show ?thesis by (simp add: title_def)
next
  case (Cons c cs)
  show ?thesis
  proof (cases cs)
    case Nil
    then show ?thesis using Cons by (simp add: initial_iff title_def)
  next
    case (Cons d ds)
    then show ?thesis using \<open>tok = c # cs\<close>
      by (cases ds) (auto simp: initial_iff title_def)
  qed
qed

lemma initial_upper: "re_fullmatch re_initial tok \<Longrightarrow> re_fullmatch re_initial (upper tok)"
  by (auto simp: initial_iff upper_def)

lemma case_token_alt:
  "case_token tok =
     (if list_ex is_latin tok then (if re_fullmatch re_initial tok then upper tok else title tok)
      else tok)"
  by (simp only: case_token_def has_latin_iff)

lemma case_token_idem: "case_token (case_token tok) = case_token tok"
proof (cases "list_ex is_latin tok")
  case False
  then show ?thesis by (simp add: case_token_alt)
next
  case True
  show ?thesis
  proof (cases "re_fullmatch re_initial tok")
    case True
    with \<open>list_ex is_latin tok\<close> show ?thesis
      by (simp add: case_token_alt upper_latin initial_upper upper_idem)
  next
    case False
    with True show ?thesis
      by (simp add: case_token_alt title_def title_acc_latin title_acc_idem
          initial_title [unfolded title_def])
  qed
qed

lemma case_token_name_chars: "list_all is_name_char (case_token tok) = list_all is_name_char tok"
  by (simp add: case_token_alt title_def title_acc_name_chars upper_name_chars)

lemma case_token_Nil_iff: "case_token tok = [] \<longleftrightarrow> tok = []"
proof -
  have "length (case_token tok) = length tok"
    by (simp add: case_token_alt title_def upper_def)
  then show ?thesis by (metis length_0_conv)
qed

subsection \<open>Substitutions and the form of cleaned names\<close>

text \<open>A substitution adds no characters but those of the replacement.\<close>

lemma set_slice: "set (slice s a b) \<subseteq> set (drop a s)"
  by (simp add: slice_def set_take_subset)

lemma set_sub_from: "set (sub_from r repl s k) \<subseteq> set (drop k s) \<union> set repl"
proof (induction r repl s k rule: sub_from.induct)
  case (1 r repl s k)
  show ?case
  proof (cases "search_from r s k")
    case None
    then show ?thesis by (subst sub_from.simps) simp
  next
    case (Some q)
    obtain i e where q: "q = (i, e)" by (cases q)
    note S = Some [unfolded q]
    show ?thesis
    proof (cases "k \<le> i \<and> i < e \<and> e \<le> length s")
      case True
      have "set (sub_from r repl s e) \<subseteq> set (drop e s) \<union> set repl"
        using "1.IH"(1) [OF S refl True] .
      moreover have "set (drop e s) \<subseteq> set (drop k s)"
        using True by (intro set_drop_subset_set_drop) simp
      moreover have "sub_from r repl s k = slice s k i @ repl @ sub_from r repl s e"
        using S True by (subst sub_from.simps) simp
      ultimately show ?thesis using set_slice [of s k i] by auto
    next
      case False
      show ?thesis
      proof (cases "k \<le> i \<and> i < length s")
        case True
        have "set (sub_from r repl s (Suc i)) \<subseteq> set (drop (Suc i) s) \<union> set repl"
          using "1.IH"(2) [OF S refl False True] .
        moreover have "set (drop (Suc i) s) \<subseteq> set (drop k s)"
          using True by (intro set_drop_subset_set_drop) simp
        moreover have "s ! i \<in> set (drop k s)"
        proof -
          have "drop k s ! (i - k) = s ! i" using True by simp
          moreover have "i - k < length (drop k s)" using True by (simp add: diff_less_mono)
          ultimately show ?thesis by (metis nth_mem)
        qed
        moreover have "sub_from r repl s k = slice s k i @ repl @ [s ! i] @ sub_from r repl s (Suc i)"
          using S False True by (subst sub_from.simps) auto
        ultimately show ?thesis using set_slice [of s k i] by auto
      next
        case F2: False
        have "sub_from r repl s k = drop k s @ repl"
          using S False F2 by (subst sub_from.simps) auto
        then show ?thesis by simp
      qed
    qed
  qed
qed

lemma set_re_sub: "set (re_sub r repl s) \<subseteq> set s \<union> set repl"
  using set_sub_from [of r repl s 0] by (simp add: re_sub_def)

text \<open>Replacing the characters of a class by one character, read as a map.\<close>

lemma sub_from_Chr:
  "k \<le> length s \<Longrightarrow> sub_from (Chr p) [x] s k = map (\<lambda>c. if p c then x else c) (drop k s)"
proof (induction "Chr p" "[x]" s k rule: sub_from.induct)
  case (1 s k)
  show ?case
  proof (cases "search_from (Chr p) s k")
    case None
    then have "\<forall>i. k \<le> i \<and> i < length s \<longrightarrow> \<not> p (s ! i)"
      by (auto simp: search_from_None)
    then have "\<forall>c \<in> set (drop k s). \<not> p c"
      by (auto simp: in_set_conv_nth)
    then have "map (\<lambda>c. if p c then x else c) (drop k s) = drop k s"
      by (simp add: map_idI)
    then show ?thesis using None by (simp add: sub_from.simps)
  next
    case (Some q)
    obtain i e where q: "q = (i, e)" by (cases q)
    note S = Some [unfolded q]
    from search_from_Some [OF S] have h: "k \<le> i" "i \<le> length s" "e \<in> set (ends (Chr p) s i)"
      "\<forall>j. k \<le> j \<and> j < i \<longrightarrow> ends (Chr p) s j = []" by blast+
    from h(3) have e: "i < length s" "p (s ! i)" "e = Suc i" by (auto split: if_splits)
    then have g: "k \<le> i \<and> i < e \<and> e \<le> length s" using h by auto
    have IH: "sub_from (Chr p) [x] s e = map (\<lambda>c. if p c then x else c) (drop e s)"
      using "1.hyps"(1) [OF S refl g] g by simp
    have pre: "\<forall>c \<in> set (slice s k i). \<not> p c"
    proof
      fix c assume "c \<in> set (slice s k i)"
      then obtain m where m: "m < i - k" "c = s ! (k + m)"
        using h(1,2) by (auto simp: slice_def in_set_conv_nth)
      then have "ends (Chr p) s (k + m) = []" using h(4) by simp
      moreover have "k + m < length s" using m h(1,2) by simp
      ultimately show "\<not> p c" using m by (simp split: if_splits)
    qed
    have "slice s i e = [s ! i]" using e by (simp add: slice_def take_Suc_conv_app_nth)
    then have "drop k s = slice s k i @ [s ! i] @ drop e s"
      using drop_split3 [of k i e s] g by simp
    then have "map (\<lambda>c. if p c then x else c) (drop k s)
               = slice s k i @ [x] @ map (\<lambda>c. if p c then x else c) (drop e s)"
      using pre e(2) by (simp add: map_idI)
    then show ?thesis using S g IH by (subst sub_from.simps) simp
  qed
qed

lemma re_sub_not_kept: "re_sub re_not_kept [32] s = map (\<lambda>c. if is_kept c then c else 32) s"
proof -
  have "re_sub re_not_kept [32] s = map (\<lambda>c. if \<not> is_kept c then 32 else c) s"
    using sub_from_Chr [of 0 s "\<lambda>c. \<not> is_kept c" 32] by (simp add: re_sub_def re_not_kept_def)
  also have "\<dots> = map (\<lambda>c. if is_kept c then c else 32) s" by (intro map_cong) auto
  finally show ?thesis .
qed

lemma kept_32: "is_kept 32"
  by (simp add: is_kept_def space_32)

text \<open>
  The form of every name the cleaner returns: at least two tokens joined by single
  spaces; each token is not empty, holds only letters, apostrophes, hyphens and
  periods, and is left as it is by the case normalisation.
\<close>

lemma clean_result_form:
  assumes "clean_extracted_name x = Some r"
  shows "\<exists>toks. r = join_sp toks \<and> split r = toks \<and> 2 \<le> length toks
           \<and> (\<forall>t\<in>set toks. t \<noteq> [] \<and> list_all is_name_char t \<and> case_token t = t)"
proof -
  from assms obtain s6 where
    r: "r = join_sp (map case_token (split (strip (re_sub re_spaces2 [32] (re_sub re_not_kept [32] s6)))))"
    and n: "2 \<le> length (split r)"
    by (auto simp: clean_extracted_name_def Let_def split: option.splits if_splits)
  define s7 where "s7 = strip (re_sub re_spaces2 [32] (re_sub re_not_kept [32] s6))"
  define toks where "toks = map case_token (split s7)"
  have "set (re_sub re_not_kept [32] s6) \<subseteq> {c. is_kept c}"
    by (auto simp: re_sub_not_kept kept_32)
  then have "set (re_sub re_spaces2 [32] (re_sub re_not_kept [32] s6)) \<subseteq> {c. is_kept c}"
    using set_re_sub [of re_spaces2 "[32]" "re_sub re_not_kept [32] s6"] kept_32 by auto
  then have k7: "set s7 \<subseteq> {c. is_kept c}" unfolding s7_def using set_strip by blast
  have t0: "t \<noteq> [] \<and> list_all is_name_char t" if "t \<in> set (split s7)" for t
    using split_tokens [OF that] k7 kept_not_space by (auto simp: list_all_iff)
  have t1: "t \<noteq> [] \<and> list_all is_name_char t \<and> case_token t = t" if "t \<in> set toks" for t
  proof -
    from that obtain u where u: "u \<in> set (split s7)" "t = case_token u" by (auto simp: toks_def)
    then show ?thesis using t0 [OF u(1)]
      by (simp add: case_token_idem case_token_name_chars case_token_Nil_iff)
  qed
  have "\<forall>t\<in>set toks. t \<noteq> [] \<and> (\<forall>c\<in>set t. \<not> is_space c)"
    using t1 name_char_not_space by (auto simp: list_all_iff)
  then have sp: "split (join_sp toks) = toks" by (rule split_join)
  have rt: "r = join_sp toks" using r by (simp add: toks_def s7_def)
  then show ?thesis using sp n t1 by auto
qed

subsection \<open>DOB-anchored search: which line is used\<close>

lemma later_date_lines: "nonblank_lines (str ''X\<newline>01/02/1990\<newline>Ravi Kumar\<newline>03/04/2000'') = [str ''X'', str ''01/02/1990'', str ''Ravi Kumar'', str ''03/04/2000'']"
  by (simp add: nonblank_lines_def eval_defs char_defs string_defs table_defs)

lemma later_date_date1: "date_line (str ''01/02/1990'')"
  by (simp add: date_line_def eval_defs char_defs regex_defs table_defs)

lemma later_date_cand0_clean: "clean_extracted_name (Some (str ''X'')) = None"
proof -
  have 0: "str ''X'' \<noteq> []" by (simp add: str_def)
  have 1: "strip (str ''X'') = str ''X''"
    by (simp add: eval_defs char_defs regex_defs string_defs table_defs)
  have 2: "re_sub re_lead_nonletter [] (str ''X'') = str ''X''"
    by (simp add: eval_defs char_defs regex_defs string_defs table_defs)
  have 3: "re_sub re_label [] (str ''X'') = str ''X''"
    by (simp add: eval_defs char_defs regex_defs string_defs table_defs)
  have 4: "split (str ''X'') = [str ''X'']"
    by (simp add: eval_defs char_defs regex_defs string_defs table_defs)
  have 5: "(if 1 < length [str ''X''] \<and> re_fullmatch re_short ([str ''X''] ! 0)
            then drop 1 [str ''X''] else [str ''X'']) = [str ''X'']"
    by (simp add: eval_defs char_defs regex_defs string_defs table_defs)
  have 6: "join_sp [str ''X''] = str ''X''"
    by (simp add: str_def)
  have 7: "strip (re_sub re_trailing [] (str ''X'')) = str ''X''"
    by (simp add: eval_defs char_defs regex_defs string_defs table_defs)
  have 8: "re_sub re_not_kept [32] (str ''X'') = str ''X''"
    by (simp add: eval_defs char_defs regex_defs string_defs table_defs)
  have 9: "strip (re_sub re_spaces2 [32] (str ''X'')) = str ''X''"
    by (simp add: eval_defs char_defs regex_defs string_defs table_defs)
  have 10: "join_sp (map case_token (split (str ''X''))) = str ''X''"
    by (simp add: eval_defs char_defs regex_defs string_defs table_defs)
  have 11: "length (split (str ''X'')) = 1"
    by (simp add: eval_defs char_defs regex_defs string_defs table_defs)
  have 12: "(str ''X'' = []) = False"
    by (simp add: str_def)
  show ?thesis
    using clean_extracted_name_steps [OF 0 1 2 3 4 5 6 7 8 9 10] by (simp add: 11 12)
qed

lemma later_date_cand0: "dob_candidate (str ''X'') = None"
proof -
  have 1: "re_sub re_lead_nonword [] (str ''X'') = str ''X''"
    by (simp add: eval_defs char_defs regex_defs string_defs table_defs)
  have 2: "re_sub re_num_prefix [] (str ''X'') = str ''X''"
    by (simp add: eval_defs char_defs regex_defs string_defs table_defs)
  show ?thesis by (simp add: dob_candidate_def 1 2 later_date_cand0_clean)
qed

lemma later_date_date2: "\<not> date_line (str ''Ravi Kumar'')"
  by (simp add: date_line_def eval_defs char_defs regex_defs table_defs)

lemma later_date_date3: "date_line (str ''03/04/2000'')"
  by (simp add: date_line_def eval_defs char_defs regex_defs table_defs)

lemma later_date_cand2_clean: "clean_extracted_name (Some (str ''Ravi Kumar'')) = Some (str ''Ravi Kumar'')"
proof -
  have 0: "str ''Ravi Kumar'' \<noteq> []" by (simp add: str_def)
  have 1: "strip (str ''Ravi Kumar'') = str ''Ravi Kumar''"
    by (simp add: eval_defs char_defs regex_defs string_defs table_defs)
  have 2: "re_sub re_lead_nonletter [] (str ''Ravi Kumar'') = str ''Ravi Kumar''"
    by (simp add: eval_defs char_defs regex_defs string_defs table_defs)
  have 3: "re_sub re_label [] (str ''Ravi Kumar'') = str ''Ravi Kumar''"
    by (simp add: eval_defs char_defs regex_defs string_defs table_defs)
  have 4: "split (str ''Ravi Kumar'') = [str ''Ravi'', str ''Kumar'']"
    by (simp add: eval_defs char_defs regex_defs string_defs table_defs)
  have 5: "(if 1 < length [str ''Ravi'', str ''Kumar''] \<and> re_fullmatch re_short ([str ''Ravi'', str ''Kumar''] ! 0)
            then drop 1 [str ''Ravi'', str ''Kumar''] else [str ''Ravi'', str ''Kumar'']) = [str ''Ravi'', str ''Kumar'']"
    by (simp add: eval_defs char_defs regex_defs string_defs table_defs)
  have 6: "join_sp [str ''Ravi'', str ''Kumar''] = str ''Ravi Kumar''"
    by (simp add: str_def)
  have 7: "strip (re_sub re_trailing [] (str ''Ravi Kumar'')) = str ''Ravi Kumar''"
    by (simp add: eval_defs char_defs regex_defs string_defs table_defs)
  have 8: "re_sub re_not_kept [32] (str ''Ravi Kumar'') = str ''Ravi Kumar''"
    by (simp add: eval_defs char_defs regex_defs string_defs table_defs)
  have 9: "strip (re_sub re_spaces2 [32] (str ''Ravi Kumar'')) = str ''Ravi Kumar''"
    by (simp add: eval_defs char_defs regex_defs string_defs table_defs)
  have 10: "join_sp (map case_token (split (str ''Ravi Kumar''))) = str ''Ravi Kumar''"
    by (simp add: eval_defs char_defs regex_defs string_defs table_defs)
  have 11: "length (split (str ''Ravi Kumar'')) = 2"
    by (simp add: eval_defs char_defs regex_defs string_defs table_defs)
  have 12: "(str ''Ravi Kumar'' = []) = False"
    by (simp add: str_def)
  show ?thesis
    using clean_extracted_name_steps [OF 0 1 2 3 4 5 6 7 8 9 10] by (simp add: 11 12)
qed

lemma later_date_cand2: "dob_candidate (str ''Ravi Kumar'') = Some (str ''Ravi Kumar'')"
proof -
  have 1: "re_sub re_lead_nonword [] (str ''Ravi Kumar'') = str ''Ravi Kumar''"
    by (simp add: eval_defs char_defs regex_defs string_defs table_defs)
  have 2: "re_sub re_num_prefix [] (str ''Ravi Kumar'') = str ''Ravi Kumar''"
    by (simp add: eval_defs char_defs regex_defs string_defs table_defs)
  show ?thesis by (simp add: dob_candidate_def 1 2 later_date_cand2_clean)
qed

lemma later_date_hit: "dob_hit (nonblank_lines (str ''X\<newline>01/02/1990\<newline>Ravi Kumar\<newline>03/04/2000'')) 3 \<and> (\<forall>j<3. \<not> dob_hit (nonblank_lines (str ''X\<newline>01/02/1990\<newline>Ravi Kumar\<newline>03/04/2000'')) j)"
proof -
  have "\<not> dob_hit (nonblank_lines (str ''X\<newline>01/02/1990\<newline>Ravi Kumar\<newline>03/04/2000'')) j" if "j < 3" for j
  proof -
    from that consider "j = 0" | "j = 1" | "j = 2" by linarith
    then show ?thesis
      by cases (simp_all add: dob_hit_def truthy_def later_date_lines later_date_date1 later_date_cand0 later_date_date2 later_date_date3 later_date_cand2)
  qed
  moreover have "dob_hit (nonblank_lines (str ''X\<newline>01/02/1990\<newline>Ravi Kumar\<newline>03/04/2000'')) 3"
    by (simp add: dob_hit_def truthy_def later_date_lines later_date_date1 later_date_cand0 later_date_date2 later_date_date3 later_date_cand2) (simp add: str_def)?
  ultimately show ?thesis by blast
qed

lemma later_date_anchored: "dob_anchored (str ''X\<newline>01/02/1990\<newline>Ravi Kumar\<newline>03/04/2000'') = Some (str ''Ravi Kumar'')"
  using dob_anchored_first [of "str ''X\<newline>01/02/1990\<newline>Ravi Kumar\<newline>03/04/2000''" 3] later_date_hit
  by (simp add: later_date_lines later_date_date1 later_date_cand0 later_date_date2 later_date_date3 later_date_cand2)
lemma numbered_lines: "nonblank_lines (str ''GOVT\<newline>3 Pankaj Khanna\<newline>01/02/1990'') = [str ''GOVT'', str ''3 Pankaj Khanna'', str ''01/02/1990'']"
  by (simp add: nonblank_lines_def eval_defs char_defs string_defs table_defs)

lemma numbered_date1: "\<not> date_line (str ''3 Pankaj Khanna'')"
  by (simp add: date_line_def eval_defs char_defs regex_defs table_defs)

lemma numbered_date2: "date_line (str ''01/02/1990'')"
  by (simp add: date_line_def eval_defs char_defs regex_defs table_defs)

lemma numbered_cand1_clean: "clean_extracted_name (Some (str ''Pankaj Khanna'')) = Some (str ''Pankaj Khanna'')"
proof -
  have 0: "str ''Pankaj Khanna'' \<noteq> []" by (simp add: str_def)
  have 1: "strip (str ''Pankaj Khanna'') = str ''Pankaj Khanna''"
    by (simp add: eval_defs char_defs regex_defs string_defs table_defs)
  have 2: "re_sub re_lead_nonletter [] (str ''Pankaj Khanna'') = str ''Pankaj Khanna''"
    by (simp add: eval_defs char_defs regex_defs string_defs table_defs)
  have 3: "re_sub re_label [] (str ''Pankaj Khanna'') = str ''Pankaj Khanna''"
    by (simp add: eval_defs char_defs regex_defs string_defs table_defs)
  have 4: "split (str ''Pankaj Khanna'') = [str ''Pankaj'', str ''Khanna'']"
    by (simp add: eval_defs char_defs regex_defs string_defs table_defs)
  have 5: "(if 1 < length [str ''Pankaj'', str ''Khanna''] \<and> re_fullmatch re_short ([str ''Pankaj'', str ''Khanna''] ! 0)
            then drop 1 [str ''Pankaj'', str ''Khanna''] else [str ''Pankaj'', str ''Khanna'']) = [str ''Pankaj'', str ''Khanna'']"
    by (simp add: eval_defs char_defs regex_defs string_defs table_defs)
  have 6: "join_sp [str ''Pankaj'', str ''Khanna''] = str ''Pankaj Khanna''"
    by (simp add: str_def)
  have 7: "strip (re_sub re_trailing [] (str ''Pankaj Khanna'')) = str ''Pankaj Khanna''"
    by (simp add: eval_defs char_defs regex_defs string_defs table_defs)
  have 8: "re_sub re_not_kept [32] (str ''Pankaj Khanna'') = str ''Pankaj Khanna''"
    by (simp add: eval_defs char_defs regex_defs string_defs table_defs)
  have 9: "strip (re_sub re_spaces2 [32] (str ''Pankaj Khanna'')) = str ''Pankaj Khanna''"
    by (simp add: eval_defs char_defs regex_defs string_defs table_defs)
  have 10: "join_sp (map case_token (split (str ''Pankaj Khanna''))) = str ''Pankaj Khanna''"
    by (simp add: eval_defs char_defs regex_defs string_defs table_defs)
  have 11: "length (split (str ''Pankaj Khanna'')) = 2"
    by (simp add: eval_defs char_defs regex_defs string_defs table_defs)
  have 12: "(str ''Pankaj Khanna'' = []) = False"
    by (simp add: str_def)
  show ?thesis
    using clean_extracted_name_steps [OF 0 1 2 3 4 5 6 7 8 9 10] by (simp add: 11 12)
qed

lemma numbered_cand1: "dob_candidate (str ''3 Pankaj Khanna'') = Some (str ''Pankaj Khanna'')"
proof -
  have 1: "re_sub re_lead_nonword [] (str ''3 Pankaj Khanna'') = str ''3 Pankaj Khanna''"
    by (simp add: eval_defs char_defs regex_defs string_defs table_defs)
  have 2: "re_sub re_num_prefix [] (str ''3 Pankaj Khanna'') = str ''Pankaj Khanna''"
    by (simp add: eval_defs char_defs regex_defs string_defs table_defs)
  show ?thesis by (simp add: dob_candidate_def 1 2 numbered_cand1_clean)
qed

lemma numbered_hit: "dob_hit (nonblank_lines (str ''GOVT\<newline>3 Pankaj Khanna\<newline>01/02/1990'')) 2 \<and> (\<forall>j<2. \<not> dob_hit (nonblank_lines (str ''GOVT\<newline>3 Pankaj Khanna\<newline>01/02/1990'')) j)"
proof -
  have "\<not> dob_hit (nonblank_lines (str ''GOVT\<newline>3 Pankaj Khanna\<newline>01/02/1990'')) j" if "j < 2" for j
  proof -
    from that consider "j = 0" | "j = 1" by linarith
    then show ?thesis
      by cases (simp_all add: dob_hit_def truthy_def numbered_lines numbered_date1 numbered_date2 numbered_cand1)
  qed
  moreover have "dob_hit (nonblank_lines (str ''GOVT\<newline>3 Pankaj Khanna\<newline>01/02/1990'')) 2"
    by (simp add: dob_hit_def truthy_def numbered_lines numbered_date1 numbered_date2 numbered_cand1) (simp add: str_def)?
  ultimately show ?thesis by blast
qed

lemma numbered_anchored: "dob_anchored (str ''GOVT\<newline>3 Pankaj Khanna\<newline>01/02/1990'') = Some (str ''Pankaj Khanna'')"
  using dob_anchored_first [of "str ''GOVT\<newline>3 Pankaj Khanna\<newline>01/02/1990''" 2] numbered_hit
  by (simp add: numbered_lines numbered_date1 numbered_date2 numbered_cand1)

text \<open>
  C8, as the code has it. The DOB-anchored search goes through the lines in order. A
  line counts when it holds a date, has a line before it, and that line (leading
  non-word characters and a leading number removed) cleans to a name; the search
  returns the name before the first line that counts, and absent exactly when no line
  counts. A date line whose predecessor does not clean to a name is passed over, and
  the predecessor of a later date line is used.
\<close>

theorem find_by_dob_block_first_hit:
  "\<exists>r. find_by_dob_block (Some t) = Inr r
       \<and> (r = None \<longleftrightarrow> (\<forall>i. \<not> dob_hit (nonblank_lines t) i))
       \<and> (\<forall>i. dob_hit (nonblank_lines t) i \<and> (\<forall>j<i. \<not> dob_hit (nonblank_lines t) j)
              \<longrightarrow> r = dob_candidate (nonblank_lines t ! (i - 1)))"
  using find_by_dob_block_anchored [of t] dob_anchored_None [of t] dob_anchored_first [of t]
  by auto

theorem find_by_dob_block_first_hit_witness:
  "dob_hit (nonblank_lines (str ''GOVT\<newline>3 Pankaj Khanna\<newline>01/02/1990'')) 2
   \<and> \<not> dob_hit (nonblank_lines (str ''GOVT\<newline>3 Pankaj Khanna\<newline>01/02/1990'')) 0 \<and> \<not> dob_hit (nonblank_lines (str ''GOVT\<newline>3 Pankaj Khanna\<newline>01/02/1990'')) 1
   \<and> find_by_dob_block (Some (str ''GOVT\<newline>3 Pankaj Khanna\<newline>01/02/1990'')) = Inr (Some (str ''Pankaj Khanna''))"
proof -
  from find_by_dob_block_first_hit [of "str ''GOVT\<newline>3 Pankaj Khanna\<newline>01/02/1990''"] obtain r where
    r: "find_by_dob_block (Some (str ''GOVT\<newline>3 Pankaj Khanna\<newline>01/02/1990'')) = Inr r"
       "\<forall>i. dob_hit (nonblank_lines (str ''GOVT\<newline>3 Pankaj Khanna\<newline>01/02/1990'')) i
              \<and> (\<forall>j<i. \<not> dob_hit (nonblank_lines (str ''GOVT\<newline>3 Pankaj Khanna\<newline>01/02/1990'')) j)
            \<longrightarrow> r = dob_candidate (nonblank_lines (str ''GOVT\<newline>3 Pankaj Khanna\<newline>01/02/1990'') ! (i - 1))"
    by blast
  from r(2) numbered_hit have "r = dob_candidate (nonblank_lines (str ''GOVT\<newline>3 Pankaj Khanna\<newline>01/02/1990'') ! (2 - 1))"
    by blast
  then have "r = Some (str ''Pankaj Khanna'')"
    by (simp add: numbered_lines numbered_cand1)
  then show ?thesis using r(1) numbered_hit by simp
qed

text \<open>
  The first date line is line 1; the line before it, \<open>X\<close>, does not clean to a name;
  the search still succeeds, with the line before the second date line.
\<close>

theorem find_by_dob_block_later_date_counterexample:
  "nonblank_lines (str ''X\<newline>01/02/1990\<newline>Ravi Kumar\<newline>03/04/2000'')
     = [str ''X'', str ''01/02/1990'', str ''Ravi Kumar'', str ''03/04/2000'']
   \<and> \<not> date_line (str ''X'') \<and> date_line (str ''01/02/1990'')
   \<and> dob_candidate (str ''X'') = None
   \<and> find_by_dob_block (Some (str ''X\<newline>01/02/1990\<newline>Ravi Kumar\<newline>03/04/2000'')) = Inr (Some (str ''Ravi Kumar''))"
proof -
  have "\<not> date_line (str ''X'')"
    by (simp add: date_line_def eval_defs char_defs regex_defs)
  then show ?thesis
    by (simp add: find_by_dob_block_anchored later_date_anchored later_date_lines later_date_date1
        later_date_cand0)
qed

subsection \<open>Absent and present transcripts\<close>

text \<open>
  C9, as the code has it. On a transcript that is a string, and for \<open>extract_name\<close>
  with any crop text (a string or absent), each extractor returns a string or absent
  and raises nothing. An absent main transcript is not handled: \<open>extract_aadhar\<close> and
  \<open>extract_dob\<close> raise \<open>TypeError\<close>, and \<open>extract_name\<close> raises \<open>AttributeError\<close>
  unless a strategy on the crop text has already returned a name.
\<close>

theorem extractors_total_on_strings:
  "(\<exists>r. extract_aadhar (Some T) = Inr r) \<and> (\<exists>r. extract_dob (Some T) = Inr r)
   \<and> (\<exists>r. extract_name (Some T) crop = Inr r)
   \<and> extract_aadhar None = Inl TypeError \<and> extract_dob None = Inl TypeError
   \<and> extract_name None crop
       = (case first_some [dob_anchored (crop_text crop), two_token (crop_text crop)] of
            Some n \<Rightarrow> Inr (Some n)
          | None \<Rightarrow> Inl AttributeError)"
proof -
  have "\<exists>r. extract_aadhar (Some T) = Inr r"
    by (auto simp: extract_aadhar_def Let_def split: option.splits)
  moreover have "\<exists>r. extract_dob (Some T) = Inr r"
    by (auto simp: extract_dob_def split: option.splits)
  moreover have "\<exists>r. extract_name (Some T) crop = Inr r"
    by (simp add: extract_name_chain)
  ultimately show ?thesis
    by (simp add: extract_name_no_text) (simp add: extract_aadhar_def extract_dob_def)
qed

theorem extractors_total_on_strings_witness:
  "(\<exists>r. extract_aadhar (Some (str ''no digits'')) = Inr r)
   \<and> (\<exists>r. extract_dob (Some (str ''no digits'')) = Inr r)
   \<and> (\<exists>r. extract_name (Some (str ''no digits'')) None = Inr r)
   \<and> extract_name None None = Inl AttributeError"
  using extractors_total_on_strings [of "str ''no digits''" None]
  by (simp add: crop_text_def dob_anchored_empty two_token_empty)

theorem extractors_null_transcript_counterexample:
  "extract_aadhar None = Inl TypeError \<and> extract_dob None = Inl TypeError
   \<and> extract_name None None = Inl AttributeError"
  by (simp add: extract_aadhar_def extract_dob_def extract_name_def find_by_dob_block_def
      truthy_def)

subsection \<open>Order of the strategies\<close>

lemma noise_lines: "nonblank_lines (str ''###'') = [str ''###'']"
  by (simp add: nonblank_lines_def eval_defs char_defs string_defs table_defs)

lemma noise_anchored: "dob_anchored (str ''###'') = None"
proof -
  have "\<not> dob_hit (nonblank_lines (str ''###'')) i" for i
  proof
    assume h: "dob_hit (nonblank_lines (str ''###'')) i"
    then have "i < 1" by (simp add: dob_hit_def noise_lines)
    then consider "i = 0" by linarith
    then show False using h
      by cases (simp_all add: dob_hit_def truthy_def noise_lines)
  qed
  then show ?thesis by (simp add: dob_anchored_None)
qed
lemma noise_tlines: "nonblank_lines (str ''###'') = [str ''###'']"
  by (simp add: nonblank_lines_def eval_defs char_defs string_defs table_defs)

lemma noise_match0: "re_match re_two_words (str ''###'') = None"
  by (simp add: eval_defs char_defs regex_defs table_defs)

lemma noise_two_token: "two_token (str ''###'') = None"
  by (simp add: two_token_def truthy_def noise_tlines noise_match0) (simp_all add: str_def)?
lemma plain_lines: "nonblank_lines (str ''Ravi Kumar\<newline>01/02/1990'') = [str ''Ravi Kumar'', str ''01/02/1990'']"
  by (simp add: nonblank_lines_def eval_defs char_defs string_defs table_defs)

lemma plain_date1: "date_line (str ''01/02/1990'')"
  by (simp add: date_line_def eval_defs char_defs regex_defs table_defs)

lemma plain_cand0_clean: "clean_extracted_name (Some (str ''Ravi Kumar'')) = Some (str ''Ravi Kumar'')"
proof -
  have 0: "str ''Ravi Kumar'' \<noteq> []" by (simp add: str_def)
  have 1: "strip (str ''Ravi Kumar'') = str ''Ravi Kumar''"
    by (simp add: eval_defs char_defs regex_defs string_defs table_defs)
  have 2: "re_sub re_lead_nonletter [] (str ''Ravi Kumar'') = str ''Ravi Kumar''"
    by (simp add: eval_defs char_defs regex_defs string_defs table_defs)
  have 3: "re_sub re_label [] (str ''Ravi Kumar'') = str ''Ravi Kumar''"
    by (simp add: eval_defs char_defs regex_defs string_defs table_defs)
  have 4: "split (str ''Ravi Kumar'') = [str ''Ravi'', str ''Kumar'']"
    by (simp add: eval_defs char_defs regex_defs string_defs table_defs)
  have 5: "(if 1 < length [str ''Ravi'', str ''Kumar''] \<and> re_fullmatch re_short ([str ''Ravi'', str ''Kumar''] ! 0)
            then drop 1 [str ''Ravi'', str ''Kumar''] else [str ''Ravi'', str ''Kumar'']) = [str ''Ravi'', str ''Kumar'']"
    by (simp add: eval_defs char_defs regex_defs string_defs table_defs)
  have 6: "join_sp [str ''Ravi'', str ''Kumar''] = str ''Ravi Kumar''"
    by (simp add: str_def)
  have 7: "strip (re_sub re_trailing [] (str ''Ravi Kumar'')) = str ''Ravi Kumar''"
    by (simp add: eval_defs char_defs regex_defs string_defs table_defs)
  have 8: "re_sub re_not_kept [32] (str ''Ravi Kumar'') = str ''Ravi Kumar''"
    by (simp add: eval_defs char_defs regex_defs string_defs table_defs)
  have 9: "strip (re_sub re_spaces2 [32] (str ''Ravi Kumar'')) = str ''Ravi Kumar''"
    by (simp add: eval_defs char_defs regex_defs string_defs table_defs)
  have 10: "join_sp (map case_token (split (str ''Ravi Kumar''))) = str ''Ravi Kumar''"
    by (simp add: eval_defs char_defs regex_defs string_defs table_defs)
  have 11: "length (split (str ''Ravi Kumar'')) = 2"
    by (simp add: eval_defs char_defs regex_defs string_defs table_defs)
  have 12: "(str ''Ravi Kumar'' = []) = False"
    by (simp add: str_def)
  show ?thesis
    using clean_extracted_name_steps [OF 0 1 2 3 4 5 6 7 8 9 10] by (simp add: 11 12)
qed

lemma plain_cand0: "dob_candidate (str ''Ravi Kumar'') = Some (str ''Ravi Kumar'')"
proof -
  have 1: "re_sub re_lead_nonword [] (str ''Ravi Kumar'') = str ''Ravi Kumar''"
    by (simp add: eval_defs char_defs regex_defs string_defs table_defs)
  have 2: "re_sub re_num_prefix [] (str ''Ravi Kumar'') = str ''Ravi Kumar''"
    by (simp add: eval_defs char_defs regex_defs string_defs table_defs)
  show ?thesis by (simp add: dob_candidate_def 1 2 plain_cand0_clean)
qed

lemma plain_hit: "dob_hit (nonblank_lines (str ''Ravi Kumar\<newline>01/02/1990'')) 1 \<and> (\<forall>j<1. \<not> dob_hit (nonblank_lines (str ''Ravi Kumar\<newline>01/02/1990'')) j)"
proof -
  have "\<not> dob_hit (nonblank_lines (str ''Ravi Kumar\<newline>01/02/1990'')) j" if "j < 1" for j
  proof -
    from that consider "j = 0" by linarith
    then show ?thesis
      by cases (simp_all add: dob_hit_def truthy_def plain_lines plain_date1 plain_cand0)
  qed
  moreover have "dob_hit (nonblank_lines (str ''Ravi Kumar\<newline>01/02/1990'')) 1"
    by (simp add: dob_hit_def truthy_def plain_lines plain_date1 plain_cand0) (simp add: str_def)?
  ultimately show ?thesis by blast
qed

lemma plain_anchored: "dob_anchored (str ''Ravi Kumar\<newline>01/02/1990'') = Some (str ''Ravi Kumar'')"
  using dob_anchored_first [of "str ''Ravi Kumar\<newline>01/02/1990''" 1] plain_hit
  by (simp add: plain_lines plain_date1 plain_cand0)

text \<open>
  C4. \<open>extract_name\<close> tries four strategies in this order and returns the first
  result that is not absent: DOB-anchored search in the crop text, two-token search in
  the crop text, DOB-anchored search in the full text, two-token search in the full
  text. In particular, when the crop text is present, both crop strategies fail and
  some line of the full text counts for the DOB-anchored search, the result is the
  name that search finds in the full text: the name before the first line that counts.
\<close>

theorem extract_name_strategy_order:
  "extract_name (Some full) crop
     = Inr (first_some [dob_anchored (crop_text crop), two_token (crop_text crop),
                        dob_anchored full, two_token full])
   \<and> (crop = Some c \<and> dob_anchored c = None \<and> two_token c = None
        \<and> dob_hit (nonblank_lines full) i
      \<longrightarrow> (\<exists>k\<le>i. dob_hit (nonblank_lines full) k
                  \<and> (\<forall>j<k. \<not> dob_hit (nonblank_lines full) j)
                  \<and> extract_name (Some full) crop
                      = Inr (dob_candidate (nonblank_lines full ! (k - 1)))
                  \<and> truthy (dob_candidate (nonblank_lines full ! (k - 1)))))"
proof (intro conjI impI)
  show "extract_name (Some full) crop
     = Inr (first_some [dob_anchored (crop_text crop), two_token (crop_text crop),
                        dob_anchored full, two_token full])"
    by (rule extract_name_chain)
next
  assume a: "crop = Some c \<and> dob_anchored c = None \<and> two_token c = None
        \<and> dob_hit (nonblank_lines full) i"
  define k where "k = (LEAST j. dob_hit (nonblank_lines full) j)"
  have k: "dob_hit (nonblank_lines full) k" unfolding k_def using a by (auto intro: LeastI)
  have ki: "k \<le> i" unfolding k_def using a by (auto intro: Least_le)
  have first: "\<forall>j<k. \<not> dob_hit (nonblank_lines full) j"
    unfolding k_def using not_less_Least by blast
  have t: "truthy (dob_candidate (nonblank_lines full ! (k - 1)))"
    using k by (simp add: dob_hit_def)
  then obtain n where n: "dob_candidate (nonblank_lines full ! (k - 1)) = Some n"
    by (auto simp: truthy_def split: option.splits)
  have "dob_anchored full = Some n" using dob_anchored_first [OF k first] n by simp
  then have "extract_name (Some full) crop = Inr (Some n)"
    using a by (simp add: extract_name_chain crop_text_def)
  then show "\<exists>k\<le>i. dob_hit (nonblank_lines full) k
                  \<and> (\<forall>j<k. \<not> dob_hit (nonblank_lines full) j)
                  \<and> extract_name (Some full) crop
                      = Inr (dob_candidate (nonblank_lines full ! (k - 1)))
                  \<and> truthy (dob_candidate (nonblank_lines full ! (k - 1)))"
    using k ki first t n by auto
qed

theorem extract_name_strategy_order_witness:
  "dob_anchored (str ''###'') = None \<and> two_token (str ''###'') = None
   \<and> dob_hit (nonblank_lines (str ''Ravi Kumar\<newline>01/02/1990'')) 1
   \<and> extract_name (Some (str ''Ravi Kumar\<newline>01/02/1990'')) (Some (str ''###'')) = Inr (Some (str ''Ravi Kumar''))"
proof -
  have h: "Some (str ''###'') = Some (str ''###'') \<and> dob_anchored (str ''###'') = None
      \<and> two_token (str ''###'') = None \<and> dob_hit (nonblank_lines (str ''Ravi Kumar\<newline>01/02/1990'')) 1"
    using plain_hit by (simp add: noise_anchored noise_two_token)
  from extract_name_strategy_order [of "str ''Ravi Kumar\<newline>01/02/1990''" "Some (str ''###'')" "str ''###''" 1] h
  obtain k where k: "k \<le> 1" "dob_hit (nonblank_lines (str ''Ravi Kumar\<newline>01/02/1990'')) k"
    "extract_name (Some (str ''Ravi Kumar\<newline>01/02/1990'')) (Some (str ''###''))
       = Inr (dob_candidate (nonblank_lines (str ''Ravi Kumar\<newline>01/02/1990'') ! (k - 1)))"
    by blast
  from k(2) have "0 < k" by (simp add: dob_hit_def)
  with k(1) have "k = 1" by simp
  then show ?thesis using k(3) h by (simp add: plain_lines plain_cand0)
qed

subsection \<open>A line that starts with a label\<close>

lemma label_line_cand_clean: "clean_extracted_name (Some (str ''Name: RAVI KUMAR'')) = Some (str ''Ravi Kumar'')"
proof -
  have 0: "str ''Name: RAVI KUMAR'' \<noteq> []" by (simp add: str_def)
  have 1: "strip (str ''Name: RAVI KUMAR'') = str ''Name: RAVI KUMAR''"
    by (simp add: eval_defs char_defs regex_defs string_defs table_defs)
  have 2: "re_sub re_lead_nonletter [] (str ''Name: RAVI KUMAR'') = str ''Name: RAVI KUMAR''"
    by (simp add: eval_defs char_defs regex_defs string_defs table_defs)
  have 3: "re_sub re_label [] (str ''Name: RAVI KUMAR'') = str ''RAVI KUMAR''"
    by (simp add: eval_defs char_defs regex_defs string_defs table_defs)
  have 4: "split (str ''RAVI KUMAR'') = [str ''RAVI'', str ''KUMAR'']"
    by (simp add: eval_defs char_defs regex_defs string_defs table_defs)
  have 5: "(if 1 < length [str ''RAVI'', str ''KUMAR''] \<and> re_fullmatch re_short ([str ''RAVI'', str ''KUMAR''] ! 0)
            then drop 1 [str ''RAVI'', str ''KUMAR''] else [str ''RAVI'', str ''KUMAR'']) = [str ''RAVI'', str ''KUMAR'']"
    by (simp add: eval_defs char_defs regex_defs string_defs table_defs)
  have 6: "join_sp [str ''RAVI'', str ''KUMAR''] = str ''RAVI KUMAR''"
    by (simp add: str_def)
  have 7: "strip (re_sub re_trailing [] (str ''RAVI KUMAR'')) = str ''RAVI KUMAR''"
    by (simp add: eval_defs char_defs regex_defs string_defs table_defs)
  have 8: "re_sub re_not_kept [32] (str ''RAVI KUMAR'') = str ''RAVI KUMAR''"
    by (simp add: eval_defs char_defs regex_defs string_defs table_defs)
  have 9: "strip (re_sub re_spaces2 [32] (str ''RAVI KUMAR'')) = str ''RAVI KUMAR''"
    by (simp add: eval_defs char_defs regex_defs string_defs table_defs)
  have 10: "join_sp (map case_token (split (str ''RAVI KUMAR''))) = str ''Ravi Kumar''"
    by (simp add: eval_defs char_defs regex_defs string_defs table_defs)
  have 11: "length (split (str ''Ravi Kumar'')) = 2"
    by (simp add: eval_defs char_defs regex_defs string_defs table_defs)
  have 12: "(str ''RAVI KUMAR'' = []) = False"
    by (simp add: str_def)
  show ?thesis
    using clean_extracted_name_steps [OF 0 1 2 3 4 5 6 7 8 9 10] by (simp add: 11 12)
qed

lemma label_line_cand: "dob_candidate (str ''Name: RAVI KUMAR'') = Some (str ''Ravi Kumar'')"
proof -
  have 1: "re_sub re_lead_nonword [] (str ''Name: RAVI KUMAR'') = str ''Name: RAVI KUMAR''"
    by (simp add: eval_defs char_defs regex_defs string_defs table_defs)
  have 2: "re_sub re_num_prefix [] (str ''Name: RAVI KUMAR'') = str ''Name: RAVI KUMAR''"
    by (simp add: eval_defs char_defs regex_defs string_defs table_defs)
  show ?thesis by (simp add: dob_candidate_def 1 2 label_line_cand_clean)
qed
lemma label_line_no_match: "re_match re_two_words (str ''Name: RAVI KUMAR'') = None"
  by (simp add: eval_defs char_defs regex_defs table_defs)
lemma label_only_lines: "nonblank_lines (str ''Name: RAVI KUMAR'') = [str ''Name: RAVI KUMAR'']"
  by (simp add: nonblank_lines_def eval_defs char_defs string_defs table_defs)

lemma label_only_anchored: "dob_anchored (str ''Name: RAVI KUMAR'') = None"
proof -
  have "\<not> dob_hit (nonblank_lines (str ''Name: RAVI KUMAR'')) i" for i
  proof
    assume h: "dob_hit (nonblank_lines (str ''Name: RAVI KUMAR'')) i"
    then have "i < 1" by (simp add: dob_hit_def label_only_lines)
    then consider "i = 0" by linarith
    then show False using h
      by cases (simp_all add: dob_hit_def truthy_def label_only_lines)
  qed
  then show ?thesis by (simp add: dob_anchored_None)
qed
lemma label_only_tlines: "nonblank_lines (str ''Name: RAVI KUMAR'') = [str ''Name: RAVI KUMAR'']"
  by (simp add: nonblank_lines_def eval_defs char_defs string_defs table_defs)

lemma label_only_match0: "re_match re_two_words (str ''Name: RAVI KUMAR'') = None"
  by (simp add: eval_defs char_defs regex_defs table_defs)

lemma label_only_two_token: "two_token (str ''Name: RAVI KUMAR'') = None"
  by (simp add: two_token_def truthy_def label_only_tlines label_only_match0) (simp_all add: str_def)?
lemma label_dated_lines: "nonblank_lines (str ''Name: RAVI KUMAR\<newline>01/02/1990'') = [str ''Name: RAVI KUMAR'', str ''01/02/1990'']"
  by (simp add: nonblank_lines_def eval_defs char_defs string_defs table_defs)

lemma label_dated_date1: "date_line (str ''01/02/1990'')"
  by (simp add: date_line_def eval_defs char_defs regex_defs table_defs)

lemma label_dated_cand0_clean: "clean_extracted_name (Some (str ''Name: RAVI KUMAR'')) = Some (str ''Ravi Kumar'')"
proof -
  have 0: "str ''Name: RAVI KUMAR'' \<noteq> []" by (simp add: str_def)
  have 1: "strip (str ''Name: RAVI KUMAR'') = str ''Name: RAVI KUMAR''"
    by (simp add: eval_defs char_defs regex_defs string_defs table_defs)
  have 2: "re_sub re_lead_nonletter [] (str ''Name: RAVI KUMAR'') = str ''Name: RAVI KUMAR''"
    by (simp add: eval_defs char_defs regex_defs string_defs table_defs)
  have 3: "re_sub re_label [] (str ''Name: RAVI KUMAR'') = str ''RAVI KUMAR''"
    by (simp add: eval_defs char_defs regex_defs string_defs table_defs)
  have 4: "split (str ''RAVI KUMAR'') = [str ''RAVI'', str ''KUMAR'']"
    by (simp add: eval_defs char_defs regex_defs string_defs table_defs)
  have 5: "(if 1 < length [str ''RAVI'', str ''KUMAR''] \<and> re_fullmatch re_short ([str ''RAVI'', str ''KUMAR''] ! 0)
            then drop 1 [str ''RAVI'', str ''KUMAR''] else [str ''RAVI'', str ''KUMAR'']) = [str ''RAVI'', str ''KUMAR'']"
    by (simp add: eval_defs char_defs regex_defs string_defs table_defs)
  have 6: "join_sp [str ''RAVI'', str ''KUMAR''] = str ''RAVI KUMAR''"
    by (simp add: str_def)
  have 7: "strip (re_sub re_trailing [] (str ''RAVI KUMAR'')) = str ''RAVI KUMAR''"
    by (simp add: eval_defs char_defs regex_defs string_defs table_defs)
  have 8: "re_sub re_not_kept [32] (str ''RAVI KUMAR'') = str ''RAVI KUMAR''"
    by (simp add: eval_defs char_defs regex_defs string_defs table_defs)
  have 9: "strip (re_sub re_spaces2 [32] (str ''RAVI KUMAR'')) = str ''RAVI KUMAR''"
    by (simp add: eval_defs char_defs regex_defs string_defs table_defs)
  have 10: "join_sp (map case_token (split (str ''RAVI KUMAR''))) = str ''Ravi Kumar''"
    by (simp add: eval_defs char_defs regex_defs string_defs table_defs)
  have 11: "length (split (str ''Ravi Kumar'')) = 2"
    by (simp add: eval_defs char_defs regex_defs string_defs table_defs)
  have 12: "(str ''RAVI KUMAR'' = []) = False"
    by (simp add: str_def)
  show ?thesis
    using clean_extracted_name_steps [OF 0 1 2 3 4 5 6 7 8 9 10] by (simp add: 11 12)
qed

lemma label_dated_cand0: "dob_candidate (str ''Name: RAVI KUMAR'') = Some (str ''Ravi Kumar'')"
proof -
  have 1: "re_sub re_lead_nonword [] (str ''Name: RAVI KUMAR'') = str ''Name: RAVI KUMAR''"
    by (simp add: eval_defs char_defs regex_defs string_defs table_defs)
  have 2: "re_sub re_num_prefix [] (str ''Name: RAVI KUMAR'') = str ''Name: RAVI KUMAR''"
    by (simp add: eval_defs char_defs regex_defs string_defs table_defs)
  show ?thesis by (simp add: dob_candidate_def 1 2 label_dated_cand0_clean)
qed

lemma label_dated_hit: "dob_hit (nonblank_lines (str ''Name: RAVI KUMAR\<newline>01/02/1990'')) 1 \<and> (\<forall>j<1. \<not> dob_hit (nonblank_lines (str ''Name: RAVI KUMAR\<newline>01/02/1990'')) j)"
proof -
  have "\<not> dob_hit (nonblank_lines (str ''Name: RAVI KUMAR\<newline>01/02/1990'')) j" if "j < 1" for j
  proof -
    from that consider "j = 0" by linarith
    then show ?thesis
      by cases (simp_all add: dob_hit_def truthy_def label_dated_lines label_dated_date1 label_dated_cand0)
  qed
  moreover have "dob_hit (nonblank_lines (str ''Name: RAVI KUMAR\<newline>01/02/1990'')) 1"
    by (simp add: dob_hit_def truthy_def label_dated_lines label_dated_date1 label_dated_cand0) (simp add: str_def)?
  ultimately show ?thesis by blast
qed

lemma label_dated_anchored: "dob_anchored (str ''Name: RAVI KUMAR\<newline>01/02/1990'') = Some (str ''Ravi Kumar'')"
  using dob_anchored_first [of "str ''Name: RAVI KUMAR\<newline>01/02/1990''" 1] label_dated_hit
  by (simp add: label_dated_lines label_dated_date1 label_dated_cand0)

lemma two_word_loop_skip:
  "re_match re_two_words l = None \<Longrightarrow> two_word_loop (xs @ l # ys) = two_word_loop (xs @ ys)"
  by (induction xs) (simp_all add: Let_def split: option.splits)

text \<open>
  C7, as the code has it. The two-token pattern is tried at the start of a line, and on
  \<open>Name: RAVI KUMAR\<close> it stops at the colon: the two-token strategy passes over that
  line, wherever it stands among the lines. The line gives \<open>Ravi Kumar\<close>, with the
  label stripped, through the DOB-anchored strategy: when it stands right before the
  first line that holds a date (and the crop text is absent).
\<close>

theorem name_label_line:
  "two_word_loop (xs @ str ''Name: RAVI KUMAR'' # ys) = two_word_loop (xs @ ys)
   \<and> (Suc i < length (nonblank_lines full)
        \<and> nonblank_lines full ! i = str ''Name: RAVI KUMAR''
        \<and> date_line (nonblank_lines full ! Suc i)
        \<and> (\<forall>j\<le>i. \<not> date_line (nonblank_lines full ! j))
      \<longrightarrow> extract_name (Some full) None = Inr (Some (str ''Ravi Kumar'')))"
proof (intro conjI impI)
  show "two_word_loop (xs @ str ''Name: RAVI KUMAR'' # ys) = two_word_loop (xs @ ys)"
    using label_line_no_match by (rule two_word_loop_skip)
next
  assume a: "Suc i < length (nonblank_lines full)
        \<and> nonblank_lines full ! i = str ''Name: RAVI KUMAR''
        \<and> date_line (nonblank_lines full ! Suc i)
        \<and> (\<forall>j\<le>i. \<not> date_line (nonblank_lines full ! j))"
  have hit: "dob_hit (nonblank_lines full) (Suc i)"
    using a by (simp add: dob_hit_def label_line_cand truthy_def) (simp add: str_def)
  have "\<forall>j<Suc i. \<not> dob_hit (nonblank_lines full) j"
    using a by (simp add: dob_hit_def)
  from dob_anchored_first [OF hit this] a
  have "dob_anchored full = Some (str ''Ravi Kumar'')" by (simp add: label_line_cand)
  then show "extract_name (Some full) None = Inr (Some (str ''Ravi Kumar''))"
    by (simp add: extract_name_chain crop_text_def dob_anchored_empty two_token_empty)
qed

theorem name_label_line_witness:
  "two_word_loop ([str ''INDIA''] @ str ''Name: RAVI KUMAR'' # []) = two_word_loop ([str ''INDIA''] @ [])
   \<and> nonblank_lines (str ''Name: RAVI KUMAR\<newline>01/02/1990'') = [str ''Name: RAVI KUMAR'', str ''01/02/1990'']
   \<and> date_line (str ''01/02/1990'') \<and> \<not> date_line (str ''Name: RAVI KUMAR'')
   \<and> extract_name (Some (str ''Name: RAVI KUMAR\<newline>01/02/1990'')) None = Inr (Some (str ''Ravi Kumar''))"
proof -
  have d: "\<not> date_line (str ''Name: RAVI KUMAR'')"
    by (simp add: date_line_def eval_defs char_defs regex_defs)
  have h: "Suc 0 < length (nonblank_lines (str ''Name: RAVI KUMAR\<newline>01/02/1990''))
        \<and> nonblank_lines (str ''Name: RAVI KUMAR\<newline>01/02/1990'') ! 0 = str ''Name: RAVI KUMAR''
        \<and> date_line (nonblank_lines (str ''Name: RAVI KUMAR\<newline>01/02/1990'') ! Suc 0)
        \<and> (\<forall>j\<le>0. \<not> date_line (nonblank_lines (str ''Name: RAVI KUMAR\<newline>01/02/1990'') ! j))"
    using d by (simp add: label_dated_lines label_dated_date1)
  from name_label_line [of "[str ''INDIA'']" "[]" 0 "str ''Name: RAVI KUMAR\<newline>01/02/1990''"] h d
  show ?thesis by (simp add: label_dated_lines label_dated_date1)
qed

text \<open>The transcript that holds that line and nothing else: no name is found.\<close>

theorem name_label_line_alone_counterexample:
  "nonblank_lines (str ''Name: RAVI KUMAR'') = [str ''Name: RAVI KUMAR'']
   \<and> extract_name (Some (str ''Name: RAVI KUMAR'')) None = Inr None"
  by (simp add: extract_name_chain crop_text_def dob_anchored_empty two_token_empty
      label_only_anchored label_only_two_token label_only_lines)

subsection \<open>Shape of extracted names\<close>
























subsection \<open>Cleaning a cleaned name\<close>

text \<open>A substitution whose pattern is found nowhere leaves the string as it is.\<close>

lemma re_sub_no_match: "re_search r s = None \<Longrightarrow> re_sub r repl s = s"
  by (subst re_sub_def, subst sub_from.simps) (simp add: re_search_def)

lemma lead_nonletter_no_match:
  assumes "s \<noteq> []" "is_letter (hd s)"
  shows "re_search re_lead_nonletter s = None"
proof -
  have "ends re_lead_nonletter s i = []" for i
  proof (cases "i = 0")
    case False
    then show ?thesis by (simp add: re_lead_nonletter_def seqs_def)
  next
    case True
    have "set (ends (Rep (\<lambda>c. \<not> is_letter c) 1 None) s 0) = {}"
    proof (rule ccontr)
      assume "set (ends (Rep (\<lambda>c. \<not> is_letter c) 1 None) s 0) \<noteq> {}"
      then obtain e where "e \<in> set (ends (Rep (\<lambda>c. \<not> is_letter c) 1 None) s 0)" by fastforce
      then obtain j where j: "1 \<le> j" "list_all (\<lambda>c. \<not> is_letter c) (take j (drop 0 s))"
        unfolding ends_Rep_iff by blast
      then have "\<not> is_letter (hd s)" using assms(1) by (cases s; cases j) auto
      then show False using assms(2) by simp
    qed
    then show ?thesis using True by (simp add: re_lead_nonletter_def seqs_def)
  qed
  then show ?thesis by (simp add: re_search_def search_from_None)
qed

lemma single_spaced_tl: "single_spaced (c # cs) \<Longrightarrow> single_spaced cs"
  by (cases cs) simp_all

lemma single_spaced_drop: "single_spaced s \<Longrightarrow> single_spaced (drop i s)"
proof (induction i arbitrary: s)
  case 0
  then show ?case by simp
next
  case (Suc i)
  then show ?case by (cases s) (auto dest: single_spaced_tl)
qed

lemma single_spaced_token: "\<forall>c\<in>set t. \<not> is_space c \<Longrightarrow> single_spaced t"
  by (induction t rule: single_spaced.induct) simp_all

lemma single_spaced_append:
  "single_spaced a \<Longrightarrow> single_spaced b \<Longrightarrow> a \<noteq> [] \<Longrightarrow> \<not> is_space (last a) \<Longrightarrow>
     single_spaced (a @ b)"
proof (induction a)
  case Nil
  then show ?case by simp
next
  case (Cons c cs)
  show ?case
  proof (cases cs)
    case Nil
    then show ?thesis using Cons.prems by (cases b) simp_all
  next
    case (Cons d ds)
    then show ?thesis using Cons.IH Cons.prems by simp
  qed
qed

lemma single_spaced_join:
  "\<forall>t\<in>set ts. t \<noteq> [] \<and> (\<forall>c\<in>set t. \<not> is_space c) \<Longrightarrow> single_spaced (join_sp ts)"
proof (induction ts rule: join_sp.induct)
  case 1
  then show ?case by simp
next
  case (2 p)
  then show ?case by (simp add: single_spaced_token)
next
  case (3 p q ps)
  have J: "single_spaced (join_sp (q # ps))" using 3 by simp
  have "join_sp (q # ps) \<noteq> []" using 3(2) join_sp_Nil_iff [of "q # ps"] by simp
  moreover have "hd (join_sp (q # ps)) = hd q" using 3(2) hd_join_sp [of "q # ps"] by simp
  moreover have "\<not> is_space (hd q)" using 3(2) by (cases q) auto
  ultimately have "single_spaced (32 # join_sp (q # ps))"
    using J by (cases "join_sp (q # ps)") auto
  moreover have "single_spaced p" "p \<noteq> []" "\<not> is_space (last p)"
    using 3(2) by (auto simp: single_spaced_token)
  ultimately have "single_spaced (p @ 32 # join_sp (q # ps))" by (intro single_spaced_append)
  then show ?case by simp
qed

lemma single_spaced_run: "single_spaced s \<Longrightarrow> length (takeWhile is_space s) \<le> 1"
  by (cases s rule: single_spaced.cases) auto

lemma spaces2_no_match:
  assumes "single_spaced s"
  shows "re_search re_spaces2 s = None"
proof -
  have "ends re_spaces2 s i = []" for i
  proof -
    have "run is_space None (drop i s) \<le> 1"
      using single_spaced_run [OF single_spaced_drop [OF assms, of i]] by (simp add: run_def)
    then show ?thesis by (simp add: re_spaces2_def ends.simps Let_def)
  qed
  then show ?thesis by (simp add: re_search_def search_from_None)
qed

lemma short_first_clean: "clean_extracted_name (Some (str ''Jo Li Wu'')) = Some (str ''Li Wu'')"
proof -
  have 0: "str ''Jo Li Wu'' \<noteq> []" by (simp add: str_def)
  have 1: "strip (str ''Jo Li Wu'') = str ''Jo Li Wu''"
    by (simp add: eval_defs char_defs regex_defs string_defs table_defs)
  have 2: "re_sub re_lead_nonletter [] (str ''Jo Li Wu'') = str ''Jo Li Wu''"
    by (simp add: eval_defs char_defs regex_defs string_defs table_defs)
  have 3: "re_sub re_label [] (str ''Jo Li Wu'') = str ''Jo Li Wu''"
    by (simp add: eval_defs char_defs regex_defs string_defs table_defs)
  have 4: "split (str ''Jo Li Wu'') = [str ''Jo'', str ''Li'', str ''Wu'']"
    by (simp add: eval_defs char_defs regex_defs string_defs table_defs)
  have 5: "(if 1 < length [str ''Jo'', str ''Li'', str ''Wu''] \<and> re_fullmatch re_short ([str ''Jo'', str ''Li'', str ''Wu''] ! 0)
            then drop 1 [str ''Jo'', str ''Li'', str ''Wu''] else [str ''Jo'', str ''Li'', str ''Wu'']) = [str ''Li'', str ''Wu'']"
    by (simp add: eval_defs char_defs regex_defs string_defs table_defs)
  have 6: "join_sp [str ''Li'', str ''Wu''] = str ''Li Wu''"
    by (simp add: str_def)
  have 7: "strip (re_sub re_trailing [] (str ''Li Wu'')) = str ''Li Wu''"
    by (simp add: eval_defs char_defs regex_defs string_defs table_defs)
  have 8: "re_sub re_not_kept [32] (str ''Li Wu'') = str ''Li Wu''"
    by (simp add: eval_defs char_defs regex_defs string_defs table_defs)
  have 9: "strip (re_sub re_spaces2 [32] (str ''Li Wu'')) = str ''Li Wu''"
    by (simp add: eval_defs char_defs regex_defs string_defs table_defs)
  have 10: "join_sp (map case_token (split (str ''Li Wu''))) = str ''Li Wu''"
    by (simp add: eval_defs char_defs regex_defs string_defs table_defs)
  have 11: "length (split (str ''Li Wu'')) = 2"
    by (simp add: eval_defs char_defs regex_defs string_defs table_defs)
  have 12: "(str ''Li Wu'' = []) = False"
    by (simp add: str_def)
  show ?thesis
    using clean_extracted_name_steps [OF 0 1 2 3 4 5 6 7 8 9 10] by (simp add: 11 12)
qed
lemma short_first_again: "clean_extracted_name (Some (str ''Li Wu'')) = None"
proof -
  have 0: "str ''Li Wu'' \<noteq> []" by (simp add: str_def)
  have 1: "strip (str ''Li Wu'') = str ''Li Wu''"
    by (simp add: eval_defs char_defs regex_defs string_defs table_defs)
  have 2: "re_sub re_lead_nonletter [] (str ''Li Wu'') = str ''Li Wu''"
    by (simp add: eval_defs char_defs regex_defs string_defs table_defs)
  have 3: "re_sub re_label [] (str ''Li Wu'') = str ''Li Wu''"
    by (simp add: eval_defs char_defs regex_defs string_defs table_defs)
  have 4: "split (str ''Li Wu'') = [str ''Li'', str ''Wu'']"
    by (simp add: eval_defs char_defs regex_defs string_defs table_defs)
  have 5: "(if 1 < length [str ''Li'', str ''Wu''] \<and> re_fullmatch re_short ([str ''Li'', str ''Wu''] ! 0)
            then drop 1 [str ''Li'', str ''Wu''] else [str ''Li'', str ''Wu'']) = [str ''Wu'']"
    by (simp add: eval_defs char_defs regex_defs string_defs table_defs)
  have 6: "join_sp [str ''Wu''] = str ''Wu''"
    by (simp add: str_def)
  have 7: "strip (re_sub re_trailing [] (str ''Wu'')) = str ''Wu''"
    by (simp add: eval_defs char_defs regex_defs string_defs table_defs)
  have 8: "re_sub re_not_kept [32] (str ''Wu'') = str ''Wu''"
    by (simp add: eval_defs char_defs regex_defs string_defs table_defs)
  have 9: "strip (re_sub re_spaces2 [32] (str ''Wu'')) = str ''Wu''"
    by (simp add: eval_defs char_defs regex_defs string_defs table_defs)
  have 10: "join_sp (map case_token (split (str ''Wu''))) = str ''Wu''"
    by (simp add: eval_defs char_defs regex_defs string_defs table_defs)
  have 11: "length (split (str ''Wu'')) = 1"
    by (simp add: eval_defs char_defs regex_defs string_defs table_defs)
  have 12: "(str ''Wu'' = []) = False"
    by (simp add: str_def)
  show ?thesis
    using clean_extracted_name_steps [OF 0 1 2 3 4 5 6 7 8 9 10] by (simp add: 11 12)
qed
lemma upper_name_clean: "clean_extracted_name (Some (str ''RAVI KUMAR'')) = Some (str ''Ravi Kumar'')"
proof -
  have 0: "str ''RAVI KUMAR'' \<noteq> []" by (simp add: str_def)
  have 1: "strip (str ''RAVI KUMAR'') = str ''RAVI KUMAR''"
    by (simp add: eval_defs char_defs regex_defs string_defs table_defs)
  have 2: "re_sub re_lead_nonletter [] (str ''RAVI KUMAR'') = str ''RAVI KUMAR''"
    by (simp add: eval_defs char_defs regex_defs string_defs table_defs)
  have 3: "re_sub re_label [] (str ''RAVI KUMAR'') = str ''RAVI KUMAR''"
    by (simp add: eval_defs char_defs regex_defs string_defs table_defs)
  have 4: "split (str ''RAVI KUMAR'') = [str ''RAVI'', str ''KUMAR'']"
    by (simp add: eval_defs char_defs regex_defs string_defs table_defs)
  have 5: "(if 1 < length [str ''RAVI'', str ''KUMAR''] \<and> re_fullmatch re_short ([str ''RAVI'', str ''KUMAR''] ! 0)
            then drop 1 [str ''RAVI'', str ''KUMAR''] else [str ''RAVI'', str ''KUMAR'']) = [str ''RAVI'', str ''KUMAR'']"
    by (simp add: eval_defs char_defs regex_defs string_defs table_defs)
  have 6: "join_sp [str ''RAVI'', str ''KUMAR''] = str ''RAVI KUMAR''"
    by (simp add: str_def)
  have 7: "strip (re_sub re_trailing [] (str ''RAVI KUMAR'')) = str ''RAVI KUMAR''"
    by (simp add: eval_defs char_defs regex_defs string_defs table_defs)
  have 8: "re_sub re_not_kept [32] (str ''RAVI KUMAR'') = str ''RAVI KUMAR''"
    by (simp add: eval_defs char_defs regex_defs string_defs table_defs)
  have 9: "strip (re_sub re_spaces2 [32] (str ''RAVI KUMAR'')) = str ''RAVI KUMAR''"
    by (simp add: eval_defs char_defs regex_defs string_defs table_defs)
  have 10: "join_sp (map case_token (split (str ''RAVI KUMAR''))) = str ''Ravi Kumar''"
    by (simp add: eval_defs char_defs regex_defs string_defs table_defs)
  have 11: "length (split (str ''Ravi Kumar'')) = 2"
    by (simp add: eval_defs char_defs regex_defs string_defs table_defs)
  have 12: "(str ''RAVI KUMAR'' = []) = False"
    by (simp add: str_def)
  show ?thesis
    using clean_extracted_name_steps [OF 0 1 2 3 4 5 6 7 8 9 10] by (simp add: 11 12)
qed

text \<open>
  C6, as the code has it. Let the cleaner return \<open>r\<close> on some candidate. Cleaning
  \<open>r\<close> again gives \<open>r\<close> when \<open>r\<close> starts with a letter, its first token is not a
  fragment of one or two Latin letters, and neither the label pattern nor the
  trailing-field pattern is found in \<open>r\<close>. Without these conditions it may not.
\<close>

theorem clean_extracted_name_stable:
  assumes "clean_extracted_name x = Some r"
    and "is_letter (hd r)"
    and "\<not> re_fullmatch re_short (hd (split r))"
    and "re_search re_label r = None"
    and "re_search re_trailing r = None"
  shows "clean_extracted_name (Some r) = Some r"
proof -
  from clean_result_form [OF assms(1)] obtain toks where
    t: "r = join_sp toks" "split r = toks" "2 \<le> length toks"
       "\<forall>t\<in>set toks. t \<noteq> [] \<and> list_all is_name_char t \<and> case_token t = t" by blast
  have ok: "\<forall>t\<in>set toks. t \<noteq> [] \<and> (\<forall>c\<in>set t. \<not> is_space c)"
    using t(4) name_char_not_space by (auto simp: list_all_iff)
  have ne: "toks \<noteq> []" "\<forall>t\<in>set toks. t \<noteq> []" using t(3) ok by auto
  have 0: "r \<noteq> []" using join_sp_Nil_iff [OF ne(2)] ne(1) t(1) by simp
  have "hd toks \<in> set toks" "last toks \<in> set toks" using ne(1) by simp_all
  then have "\<not> is_space (hd (hd toks))" "\<not> is_space (last (last toks))" "hd toks \<noteq> []"
    using ok by (auto simp: hd_in_set last_in_set)
  then have "\<not> is_space (hd r)" "\<not> is_space (last r)"
    using hd_join_sp [OF ne(1)] last_join_sp [OF ne] t(1) by simp_all
  then have 1: "strip r = r" using 0 by (intro strip_id)
  have 2: "re_sub re_lead_nonletter [] r = r"
    using lead_nonletter_no_match [OF 0 assms(2)] by (rule re_sub_no_match)
  have 3: "re_sub re_label [] r = r" using assms(4) by (rule re_sub_no_match)
  have "toks ! 0 = hd (split r)" using ne(1) t(2) by (simp add: hd_conv_nth)
  then have 5: "(if 1 < length toks \<and> re_fullmatch re_short (toks ! 0) then drop 1 toks else toks) = toks"
    using assms(3) by simp
  have 6: "join_sp toks = r" using t(1) by simp
  have 7: "strip (re_sub re_trailing [] r) = r"
    using re_sub_no_match [OF assms(5)] 1 by simp
  have kept: "\<forall>c\<in>set r. is_kept c"
    using set_join_sp [of toks] t(1,4) name_char_kept kept_32 by (auto simp: list_all_iff)
  then have 8: "re_sub re_not_kept [32] r = r" by (simp add: re_sub_not_kept map_idI)
  have "single_spaced r" using single_spaced_join [OF ok] t(1) by simp
  then have 9: "strip (re_sub re_spaces2 [32] r) = r"
    using re_sub_no_match [OF spaces2_no_match] 1 by simp
  have "map case_token toks = toks" using t(4) by (simp add: map_idI)
  then have 10: "join_sp (map case_token (split r)) = r" using t(1,2) by simp
  from clean_extracted_name_steps [OF 0 1 2 3 t(2) 5 6 7 8 9 10]
  show ?thesis using 0 t(2,3) by simp
qed

theorem clean_extracted_name_stable_witness:
  "clean_extracted_name (Some (str ''RAVI KUMAR'')) = Some (str ''Ravi Kumar'')
   \<and> is_letter (hd (str ''Ravi Kumar''))
   \<and> \<not> re_fullmatch re_short (hd (split (str ''Ravi Kumar'')))
   \<and> re_search re_label (str ''Ravi Kumar'') = None
   \<and> re_search re_trailing (str ''Ravi Kumar'') = None
   \<and> clean_extracted_name (Some (str ''Ravi Kumar'')) = Some (str ''Ravi Kumar'')"
proof -
  have 1: "is_letter (hd (str ''Ravi Kumar''))"
    by (simp add: str_def char_defs)
  have 2: "\<not> re_fullmatch re_short (hd (split (str ''Ravi Kumar'')))"
    by (simp add: eval_defs char_defs regex_defs string_defs)
  have 3: "re_search re_label (str ''Ravi Kumar'') = None"
    by (simp add: eval_defs char_defs regex_defs)
  have 4: "re_search re_trailing (str ''Ravi Kumar'') = None"
    by (simp add: eval_defs char_defs regex_defs)
  from clean_extracted_name_stable [OF upper_name_clean 1 2 3 4] upper_name_clean 1 2 3 4
  show ?thesis by simp
qed

text \<open>
  The first token \<open>Jo\<close> is dropped as a fragment; in the result the first token
  \<open>Li\<close> is a fragment in its turn, and what is left is a single word.
\<close>

theorem clean_extracted_name_twice_counterexample:
  "clean_extracted_name (Some (str ''Jo Li Wu'')) = Some (str ''Li Wu'')
   \<and> clean_extracted_name (clean_extracted_name (Some (str ''Jo Li Wu''))) = None"
  by (simp add: short_first_clean short_first_again)

end
